theory Spec2Isabelle
  imports Main "HOL-Library.Product_Lexorder"
begin

section \<open>Values and errors\<close>

text \<open>
  The exceptions the program can raise. \<open>CronSimError\<close> is the program's own class and
  carries its message; the others are raised by the Python runtime (\<open>int()\<close> on a
  non-decimal digit, \<open>min()\<close> of an empty set, arithmetic on a tuple, a date past
  9999-12-31).
\<close>

datatype error = CronSimError string | ValueError | TypeError | OverflowError

text \<open>
  The elements of a constraint set: a plain integer, or the tuple \<open>(weekday, nth)\<close> that the
  \<open>#\<close> syntax of the day-of-week field produces.
\<close>

datatype item = Num int | Tuple int int

fun is_Num :: "item \<Rightarrow> bool" where
  "is_Num (Num _) = True"
| "is_Num (Tuple _ _) = False"

fun int_of :: "item \<Rightarrow> int" where
  "int_of (Num v) = v"
| "int_of (Tuple v _) = v"

section \<open>String operations of the Python runtime\<close>

text \<open>
  Strings are lists of 8-bit characters, read as the code points U+0000 to U+00FF.
\<close>

definition digit_chars :: "char list" where
  "digit_chars = ''0123456789''"

text \<open>
  \<open>str.isdigit\<close> also accepts the superscript digits U+00B2, U+00B3 and U+00B9, which
  \<open>int()\<close> then refuses with ValueError.
\<close>

definition superscript_chars :: "char list" where
  "superscript_chars = [CHR 0xB2, CHR 0xB3, CHR 0xB9]"

definition isdigit :: "string \<Rightarrow> bool" where
  "isdigit s = (s \<noteq> [] \<and> (\<forall>c \<in> set s. c \<in> set digit_chars \<or> c \<in> set superscript_chars))"

fun index_of :: "'a \<Rightarrow> 'a list \<Rightarrow> nat" where
  "index_of x [] = 0"
| "index_of x (y # ys) = (if x = y then 0 else Suc (index_of x ys))"

definition digit_val :: "char \<Rightarrow> int" where
  "digit_val c = int (index_of c digit_chars)"

text \<open>\<open>int(value)\<close> on a string for which \<open>isdigit\<close> holds.\<close>

definition py_int :: "string \<Rightarrow> error + int" where
  "py_int s =
     (if \<forall>c \<in> set s. c \<in> set digit_chars
      then Inr (foldl (\<lambda>acc c. 10 * acc + digit_val c) 0 s)
      else Inl ValueError)"

text \<open>
  \<open>str.upper\<close>, on the letters a to z. A code point above U+007F never maps to an ASCII
  letter sequence that occurs in a day or month name, so leaving it in place gives the same
  answer to every membership test the program makes.
\<close>

definition upper_char :: "char \<Rightarrow> char" where
  "upper_char c =
     (case map_of (zip ''abcdefghijklmnopqrstuvwxyz'' ''ABCDEFGHIJKLMNOPQRSTUVWXYZ'') c of
        Some u \<Rightarrow> u
      | None \<Rightarrow> c)"

definition upper :: "string \<Rightarrow> string" where
  "upper s = map upper_char s"

text \<open>
  \<open>s.split(sep)\<close> for a one-character separator: every occurrence splits, empty pieces are
  kept.
\<close>

fun split_on :: "char \<Rightarrow> string \<Rightarrow> string list" where
  "split_on sep [] = [[]]"
| "split_on sep (c # cs) =
     (if c = sep then [] # split_on sep cs
      else (case split_on sep cs of
              [] \<Rightarrow> [[c]]
            | p # ps \<Rightarrow> (c # p) # ps))"

text \<open>
  \<open>s.split(sep, maxsplit=1)\<close> when \<open>sep\<close> occurs in \<open>s\<close>: the text before the first
  occurrence and the text after it.
\<close>

definition split1 :: "char \<Rightarrow> string \<Rightarrow> string \<times> string" where
  "split1 sep s = (takeWhile (\<lambda>c. c \<noteq> sep) s, tl (dropWhile (\<lambda>c. c \<noteq> sep) s))"

text \<open>
  The code points below U+0100 that \<open>str.split()\<close> treats as whitespace.
\<close>

definition whitespace_chars :: "char list" where
  "whitespace_chars =
     [CHR 0x09, CHR 0x0A, CHR 0x0B, CHR 0x0C, CHR 0x0D, CHR 0x1C, CHR 0x1D, CHR 0x1E, CHR 0x1F,
      CHR 0x20, CHR 0x85, CHR 0xA0]"

definition isspace :: "char \<Rightarrow> bool" where
  "isspace c = (c \<in> set whitespace_chars)"

text \<open>\<open>s.split()\<close>: split on runs of whitespace, no empty pieces.\<close>

fun split_ws_acc :: "string \<Rightarrow> string \<Rightarrow> string list" where
  "split_ws_acc cur [] = (if cur = [] then [] else [rev cur])"
| "split_ws_acc cur (c # cs) =
     (if isspace c
      then (if cur = [] then split_ws_acc [] cs else rev cur # split_ws_acc [] cs)
      else split_ws_acc (c # cur) cs)"

definition split_ws :: "string \<Rightarrow> string list" where
  "split_ws s = split_ws_acc [] s"

text \<open>Every piece of a split is shorter than a string that holds the separator.\<close>

lemma split_on_length: "t \<in> set (split_on sep s) \<Longrightarrow> length t \<le> length s"
  by (induction s arbitrary: t) (fastforce split: if_splits list.splits)+

lemma split_on_length_less:
  "sep \<in> set s \<Longrightarrow> t \<in> set (split_on sep s) \<Longrightarrow> length t < length s"
proof (induction s arbitrary: t)
  case Nil
  then show ?case by simp
next
  case (Cons c cs)
  show ?case
  proof (cases "c = sep")
    case True
    with Cons.prems split_on_length[of t sep cs] show ?thesis
      by (auto simp: less_Suc_eq_le)
  next
    case False
    with Cons show ?thesis by (fastforce split: list.splits)
  qed
qed

lemma split1_fst_length: "sep \<in> set s \<Longrightarrow> length (fst (split1 sep s)) < length s"
  unfolding split1_def by (induction s) auto

section \<open>Field grammar\<close>

datatype Field = MINUTE | HOUR | DAY | MONTH | DOW | SECOND

fun RANGES :: "Field \<Rightarrow> item set" where
  "RANGES MINUTE = set (map Num [0..59])"
| "RANGES HOUR = set (map Num [0..23])"
| "RANGES DAY = set (map Num [1..31])"
| "RANGES MONTH = set (map Num [1..12])"
| "RANGES DOW = set (map Num [0..6])"
| "RANGES SECOND = set (map Num [0..59])"

definition SYMBOLIC_DAYS :: "string list" where
  "SYMBOLIC_DAYS = [''SUN'', ''MON'', ''TUE'', ''WED'', ''THU'', ''FRI'', ''SAT'']"

definition SYMBOLIC_MONTHS :: "string list" where
  "SYMBOLIC_MONTHS = [''JAN'', ''FEB'', ''MAR'', ''APR'', ''MAY'', ''JUN'',
                      ''JUL'', ''AUG'', ''SEP'', ''OCT'', ''NOV'', ''DEC'']"

definition bad_value :: "string \<Rightarrow> error" where
  "bad_value s = CronSimError (''Bad value: '' @ s)"

text \<open>\<open>_int(value, min_value)\<close>.\<close>

definition int' :: "string \<Rightarrow> int \<Rightarrow> error + int" where
  "int' value min_value =
     (if \<not> isdigit value \<or> length value > 2 then Inl (bad_value value)
      else (case py_int value of
              Inl e \<Rightarrow> Inl e
            | Inr v \<Rightarrow> if v < min_value then Inl (bad_value value) else Inr v))"

text \<open>\<open>Field.int(self, s)\<close>.\<close>

definition Field_int :: "Field \<Rightarrow> string \<Rightarrow> error + int" where
  "Field_int self s =
     (if self = MONTH \<and> upper s \<in> set SYMBOLIC_MONTHS
      then Inr (int (index_of (upper s) SYMBOLIC_MONTHS) + 1)
      else if self = DOW \<and> upper s \<in> set SYMBOLIC_DAYS
      then Inr (int (index_of (upper s) SYMBOLIC_DAYS))
      else (case int' s 0 of
              Inl e \<Rightarrow> Inl e
            | Inr v \<Rightarrow> if Num v \<notin> RANGES self then Inl (bad_value s) else Inr v))"

definition LAST :: int where
  "LAST = 1000"

text \<open>
  The loop \<open>for term in s.split(","): result.update(self.parse(term))\<close>: the first term that
  raises ends the loop with its error.
\<close>

fun update_all :: "(error + item set) list \<Rightarrow> error + item set" where
  "update_all [] = Inr {}"
| "update_all (Inl e # rs) = Inl e"
| "update_all (Inr S # rs) =
     (case update_all rs of Inl e \<Rightarrow> Inl e | Inr T \<Rightarrow> Inr (S \<union> T))"

text \<open>\<open>items[::step]\<close> for \<open>step \<ge> 1\<close>.\<close>

fun every_nth :: "nat \<Rightarrow> 'a list \<Rightarrow> 'a list" where
  "every_nth step [] = []"
| "every_nth step (x # xs) = x # every_nth step (drop (step - 1) xs)"

text \<open>
  \<open>sorted(S)\<close> for a constraint set. Integers sort numerically. The step branch of
  \<open>parse\<close> is the only caller, and a set that reaches it holds no tuple (lemma
  \<open>parse_no_Tuple\<close> below); Python's answer for a set with tuples is taken to be the
  TypeError that comparing a tuple with an integer raises.
\<close>

definition py_sorted :: "item set \<Rightarrow> error + int list" where
  "py_sorted S =
     (if \<forall>x \<in> S. is_Num x then Inr (sorted_list_of_set (int_of ` S)) else Inl TypeError)"

function parse :: "Field \<Rightarrow> string \<Rightarrow> error + item set" where
  "parse self s =
     (if s = ''*'' then Inr (RANGES self)
      else if CHR '','' \<in> set s then update_all (map (parse self) (split_on CHR '','' s))
      else if CHR ''#'' \<in> set s \<and> self = DOW then
        (case int' (snd (split1 CHR ''#'' s)) 1 of
           Inl e \<Rightarrow> Inl e
         | Inr n \<Rightarrow>
             (case Field_int self (fst (split1 CHR ''#'' s)) of
                Inl e \<Rightarrow> Inl e
              | Inr v \<Rightarrow> Inr {Tuple v n}))
      else if CHR ''/'' \<in> set s then
        (case int' (snd (split1 CHR ''/'' s)) 1 of
           Inl e \<Rightarrow> Inl e
         | Inr step \<Rightarrow>
             (case parse self (fst (split1 CHR ''/'' s)) of
                Inl e \<Rightarrow> Inl e
              | Inr S \<Rightarrow>
                  (case py_sorted S of
                     Inl e \<Rightarrow> Inl e
                   | Inr items \<Rightarrow>
                       if items = [LAST] then Inr (Num ` set items)
                       else if length items = 1 then
                         Inr (Num ` set (every_nth (nat step)
                                [hd items .. Max (int_of ` RANGES self)]))
                       else Inr (Num ` set (every_nth (nat step) items)))))
      else if CHR ''-'' \<in> set s then
        (case Field_int self (fst (split1 CHR ''-'' s)) of
           Inl e \<Rightarrow> Inl e
         | Inr start \<Rightarrow>
             (case Field_int self (snd (split1 CHR ''-'' s)) of
                Inl e \<Rightarrow> Inl e
              | Inr endv \<Rightarrow>
                  if endv < start
                  then Inl (CronSimError ''Range end cannot be smaller than start'')
                  else Inr (Num ` set [start .. endv])))
      else if self = DAY \<and> (s = ''L'' \<or> s = ''l'') then Inr {Num LAST}
      else (case Field_int self s of Inl e \<Rightarrow> Inl e | Inr v \<Rightarrow> Inr {Num v}))"
  by pat_completeness auto
termination
  by (relation "measure (\<lambda>(self, s). length s)")
     (auto simp: split_on_length_less split1_fst_length)

declare parse.simps [simp del]

section \<open>Dates and instants of the Python runtime\<close>

text \<open>
  \<open>datetime.date\<close> and \<open>datetime.datetime\<close> (a subclass of \<open>date\<close>) with the
  operations the program uses. \<open>tzinfo\<close> is carried along and never read.
\<close>

record date =
  year :: int
  month :: int
  day :: int

record datetime = date +
  hour :: int
  minute :: int
  second :: int
  microsecond :: int
  tzinfo :: "int option"

definition MAXYEAR :: int where
  "MAXYEAR = 9999"

definition is_leap :: "int \<Rightarrow> bool" where
  "is_leap y = (y mod 4 = 0 \<and> (y mod 100 \<noteq> 0 \<or> y mod 400 = 0))"

text \<open>\<open>calendar.monthrange(y, m)[1]\<close>: the number of days of month \<open>m\<close> of year \<open>y\<close>.\<close>

definition days_in_month :: "int \<Rightarrow> int \<Rightarrow> int" where
  "days_in_month y m =
     (if m = 2 \<and> is_leap y then 29
      else [0, 31, 28, 31, 30, 31, 30, 31, 31, 30, 31, 30, 31] ! nat m)"

definition days_before_year :: "int \<Rightarrow> int" where
  "days_before_year y = (y - 1) * 365 + (y - 1) div 4 - (y - 1) div 100 + (y - 1) div 400"

definition days_before_month :: "int \<Rightarrow> int \<Rightarrow> int" where
  "days_before_month y m =
     [0, 0, 31, 59, 90, 120, 151, 181, 212, 243, 273, 304, 334] ! nat m
       + (if m > 2 \<and> is_leap y then 1 else 0)"

text \<open>\<open>d.toordinal()\<close>: 0001-01-01 is day 1.\<close>

definition toordinal :: "'a date_scheme \<Rightarrow> int" where
  "toordinal d = days_before_year (year d) + days_before_month (year d) (month d) + day d"

definition MAXORDINAL :: int where
  "MAXORDINAL = 3652059"

text \<open>\<open>d.weekday()\<close>: Monday is 0.\<close>

definition weekday :: "'a date_scheme \<Rightarrow> int" where
  "weekday d = (toordinal d + 6) mod 7"

definition valid_date :: "'a date_scheme \<Rightarrow> bool" where
  "valid_date d =
     (1 \<le> year d \<and> year d \<le> MAXYEAR \<and> 1 \<le> month d \<and> month d \<le> 12 \<and>
      1 \<le> day d \<and> day d \<le> days_in_month (year d) (month d))"

definition valid_datetime :: "datetime \<Rightarrow> bool" where
  "valid_datetime t =
     (valid_date t \<and> 0 \<le> hour t \<and> hour t < 24 \<and> 0 \<le> minute t \<and> minute t < 60 \<and>
      0 \<le> second t \<and> second t < 60 \<and> 0 \<le> microsecond t \<and> microsecond t < 1000000)"

text \<open>The date one day after \<open>d\<close> (\<open>date.fromordinal(d.toordinal() + 1)\<close>).\<close>

definition tomorrow :: "date \<Rightarrow> date" where
  "tomorrow d =
     (if day d < days_in_month (year d) (month d) then d\<lparr>day := day d + 1\<rparr>
      else if month d < 12 then d\<lparr>month := month d + 1, day := 1\<rparr>
      else \<lparr>year = year d + 1, month = 1, day = 1\<rparr>)"

text \<open>\<open>d + timedelta(days=1)\<close>.\<close>

definition date_add_day :: "date \<Rightarrow> error + date" where
  "date_add_day d =
     (if toordinal d + 1 > MAXORDINAL then Inl OverflowError else Inr (tomorrow d))"

text \<open>\<open>d + timedelta(days=k)\<close> for \<open>k \<ge> 0\<close>.\<close>

primrec date_add_days :: "nat \<Rightarrow> date \<Rightarrow> error + date" where
  "date_add_days 0 d = Inr d"
| "date_add_days (Suc k) d =
     (case date_add_day d of Inl e \<Rightarrow> Inl e | Inr d' \<Rightarrow> date_add_days k d')"

text \<open>\<open>t.date()\<close> and \<open>datetime.combine(d, time(), tz)\<close>.\<close>

definition date_of :: "datetime \<Rightarrow> date" where
  "date_of t = \<lparr>year = year t, month = month t, day = day t\<rparr>"

definition combine :: "date \<Rightarrow> int option \<Rightarrow> datetime" where
  "combine d tz =
     \<lparr>year = year d, month = month d, day = day d,
      hour = 0, minute = 0, second = 0, microsecond = 0, tzinfo = tz\<rparr>"

text \<open>\<open>t + timedelta(seconds=n)\<close> for \<open>n \<ge> 0\<close>.\<close>

definition datetime_add :: "datetime \<Rightarrow> int \<Rightarrow> error + datetime" where
  "datetime_add t n =
     (let total = hour t * 3600 + minute t * 60 + second t + n
      in case date_add_days (nat (total div 86400)) (date_of t) of
           Inl e \<Rightarrow> Inl e
         | Inr d \<Rightarrow>
             Inr (t\<lparr>year := year d, month := month d, day := day d,
                    hour := (total mod 86400) div 3600,
                    minute := (total mod 3600) div 60,
                    second := total mod 60\<rparr>))"

text \<open>The instant as a number of seconds, for measuring distances.\<close>

definition timestamp :: "datetime \<Rightarrow> int" where
  "timestamp t = toordinal t * 86400 + hour t * 3600 + minute t * 60 + second t"

text \<open>
  \<open>a < b\<close> on instants: Python compares the fields in order (both instants carry the same
  \<open>tzinfo\<close>).
\<close>

definition datetime_less :: "datetime \<Rightarrow> datetime \<Rightarrow> bool" where
  "datetime_less a b =
     ((year a, month a, day a, hour a, minute a, second a, microsecond a)
        < (year b, month b, day b, hour b, minute b, second b, microsecond b))"

section \<open>The iterator\<close>

text \<open>
  An instance of \<open>CronSim\<close>: the cursor \<open>dt\<close> and the six constraint sets. When the whole
  day field is \<open>L/n\<close> the program stores the list \<open>[LAST]\<close> instead of a set; the program
  only tests membership and equality with a \<open>RANGES\<close> entry on it, and both agree with the set
  \<open>{LAST}\<close>.
\<close>

record CronSim =
  dt :: datetime
  minutes :: "item set"
  hours :: "item set"
  days :: "item set"
  months :: "item set"
  weekdays :: "item set"
  seconds :: "item set"

text \<open>\<open>CronSim.__init__(self, expr, dt)\<close>.\<close>

definition CronSim_init :: "string \<Rightarrow> datetime \<Rightarrow> error + CronSim" where
  "CronSim_init expr t =
     (let parts0 = split_ws expr;
          parts = (if length parts0 = 5 then parts0 @ [''0''] else parts0)
      in if length parts \<noteq> 6 then Inl (CronSimError ''Wrong number of fields'')
         else
           (case parse MINUTE (parts ! 0) of Inl e \<Rightarrow> Inl e | Inr mi \<Rightarrow>
           (case parse HOUR (parts ! 1) of Inl e \<Rightarrow> Inl e | Inr ho \<Rightarrow>
           (case parse DAY (parts ! 2) of Inl e \<Rightarrow> Inl e | Inr da \<Rightarrow>
           (case parse MONTH (parts ! 3) of Inl e \<Rightarrow> Inl e | Inr mo \<Rightarrow>
           (case parse DOW (parts ! 4) of Inl e \<Rightarrow> Inl e | Inr wd \<Rightarrow>
           (case parse SECOND (parts ! 5) of Inl e \<Rightarrow> Inl e | Inr se \<Rightarrow>
             (let da' = (if da = RANGES DAY \<and> wd \<noteq> RANGES DOW then {} else da);
                  wd' = (if wd = RANGES DOW \<and> da' \<noteq> RANGES DAY then {} else wd)
              in Inr \<lparr>dt = t\<lparr>second := 0, microsecond := 0\<rparr>,
                       minutes = mi, hours = ho, days = da', months = mo,
                       weekdays = wd', seconds = se\<rparr>))))))))"

text \<open>
  \<open>min(S)\<close> and \<open>min(f(v) for v in S)\<close> with \<open>f\<close> arithmetic on \<open>v\<close>: ValueError on the
  empty set; a tuple in the set ends in TypeError (in the arithmetic, in the comparison
  with an integer, or when \<open>replace\<close> receives the tuple).
\<close>

definition py_min :: "(int \<Rightarrow> int) \<Rightarrow> item set \<Rightarrow> error + int" where
  "py_min f S =
     (if S = {} then Inl ValueError
      else if \<exists>x \<in> S. \<not> is_Num x then Inl TypeError
      else Inr (Min ((\<lambda>x. f (int_of x)) ` S)))"

text \<open>\<open>t.replace(minute=mi, second=se)\<close>; Python checks the range of each field.\<close>

definition replace_minute_second :: "datetime \<Rightarrow> int \<Rightarrow> int \<Rightarrow> error + datetime" where
  "replace_minute_second t mi se =
     (if 0 \<le> mi \<and> mi \<le> 59 \<and> 0 \<le> se \<and> se \<le> 59
      then Inr (t\<lparr>minute := mi, second := se\<rparr>)
      else Inl ValueError)"

definition replace_second :: "datetime \<Rightarrow> int \<Rightarrow> error + datetime" where
  "replace_second t se =
     (if 0 \<le> se \<and> se \<le> 59 then Inr (t\<lparr>second := se\<rparr>) else Inl ValueError)"

text \<open>
  The \<open>advance_*\<close> methods return whether the cursor moved; the model returns that flag with
  the updated instance.
\<close>

definition advance_second :: "CronSim \<Rightarrow> error + bool \<times> CronSim" where
  "advance_second self =
     (if Num (second (dt self)) \<in> seconds self then Inr (False, self)
      else
        case py_min (\<lambda>v. (v - second (dt self)) mod 60) (seconds self) of
          Inl e \<Rightarrow> Inl e
        | Inr delta \<Rightarrow>
            (case datetime_add (dt self) delta of
               Inl e \<Rightarrow> Inl e
             | Inr t \<Rightarrow> Inr (True, self\<lparr>dt := t\<rparr>)))"

definition advance_minute :: "CronSim \<Rightarrow> error + bool \<times> CronSim" where
  "advance_minute self =
     (if Num (minute (dt self)) \<in> minutes self then Inr (False, self)
      else
        case py_min (\<lambda>v. (v - minute (dt self)) mod 60) (minutes self) of
          Inl e \<Rightarrow> Inl e
        | Inr delta \<Rightarrow>
            (case datetime_add (dt self) (delta * 60) of
               Inl e \<Rightarrow> Inl e
             | Inr t \<Rightarrow>
                 (case py_min (\<lambda>v. v) (seconds self) of
                    Inl e \<Rightarrow> Inl e
                  | Inr se \<Rightarrow>
                      (case replace_second t se of
                         Inl e \<Rightarrow> Inl e
                       | Inr t' \<Rightarrow> Inr (True, self\<lparr>dt := t'\<rparr>)))))"

definition advance_hour :: "CronSim \<Rightarrow> error + bool \<times> CronSim" where
  "advance_hour self =
     (if Num (hour (dt self)) \<in> hours self then Inr (False, self)
      else
        case py_min (\<lambda>v. (v - hour (dt self)) mod 24) (hours self) of
          Inl e \<Rightarrow> Inl e
        | Inr delta \<Rightarrow>
            (case datetime_add (dt self) (delta * 3600) of
               Inl e \<Rightarrow> Inl e
             | Inr t \<Rightarrow>
                 (case py_min (\<lambda>v. v) (minutes self) of
                    Inl e \<Rightarrow> Inl e
                  | Inr mi \<Rightarrow>
                      (case py_min (\<lambda>v. v) (seconds self) of
                         Inl e \<Rightarrow> Inl e
                       | Inr se \<Rightarrow>
                           (case replace_minute_second t mi se of
                              Inl e \<Rightarrow> Inl e
                            | Inr t' \<Rightarrow> Inr (True, self\<lparr>dt := t'\<rparr>))))))"

text \<open>\<open>match_day(self, d)\<close>; the method's \<open>None\<close> is falsy and reads as \<open>False\<close>.\<close>

definition match_day :: "CronSim \<Rightarrow> date \<Rightarrow> bool" where
  "match_day self d =
     (if Num (day d) \<in> days self then True
      else if Num LAST \<in> days self \<and> day d = days_in_month (year d) (month d) then True
      else
        (let dow = weekday d + 1 in
         if Num dow \<in> weekdays self \<or> Num (dow mod 7) \<in> weekdays self then True
         else
           (let idx = (day d + 6) div 7 in
            if Tuple dow idx \<in> weekdays self \<or> Tuple (dow mod 7) idx \<in> weekdays self
            then True
            else False)))"

text \<open>
  The loops \<open>while not self.match_day(needle): needle += td(days=1)\<close> and
  \<open>while needle.month not in self.months: needle += td(days=1)\<close>. \<open>None\<close> stands for a
  loop that runs forever.
\<close>

partial_function (option) scan_day :: "CronSim \<Rightarrow> date \<Rightarrow> (error + date) option" where
  "scan_day self needle =
     (if match_day self needle then Some (Inr needle)
      else case date_add_day needle of
             Inl e \<Rightarrow> Some (Inl e)
           | Inr n \<Rightarrow> scan_day self n)"

partial_function (option) scan_month :: "CronSim \<Rightarrow> date \<Rightarrow> (error + date) option" where
  "scan_month self needle =
     (if Num (month needle) \<in> months self then Some (Inr needle)
      else case date_add_day needle of
             Inl e \<Rightarrow> Some (Inl e)
           | Inr n \<Rightarrow> scan_month self n)"

declare scan_day.simps [code] scan_month.simps [code]

definition advance_day :: "CronSim \<Rightarrow> (error + bool \<times> CronSim) option" where
  "advance_day self =
     (let needle = date_of (dt self) in
      if match_day self needle then Some (Inr (False, self))
      else case scan_day self needle of
             None \<Rightarrow> None
           | Some (Inl e) \<Rightarrow> Some (Inl e)
           | Some (Inr n) \<Rightarrow> Some (Inr (True, self\<lparr>dt := combine n (tzinfo (dt self))\<rparr>)))"

definition advance_month :: "CronSim \<Rightarrow> (error + CronSim) option" where
  "advance_month self =
     (if Num (month (dt self)) \<in> months self then Some (Inr self)
      else case scan_month self (date_of (dt self)) of
             None \<Rightarrow> None
           | Some (Inl e) \<Rightarrow> Some (Inl e)
           | Some (Inr n) \<Rightarrow> Some (Inr (self\<lparr>dt := combine n (tzinfo (dt self))\<rparr>)))"

text \<open>
  The \<open>while True\<close> loop of \<open>__next__\<close>, and \<open>__next__\<close> itself: the result is the returned
  instant with the updated instance.
\<close>

partial_function (option) next_loop :: "CronSim \<Rightarrow> (error + datetime \<times> CronSim) option" where
  "next_loop self =
     (case advance_month self of
        None \<Rightarrow> None
      | Some (Inl e) \<Rightarrow> Some (Inl e)
      | Some (Inr s1) \<Rightarrow>
     (case advance_day s1 of
        None \<Rightarrow> None
      | Some (Inl e) \<Rightarrow> Some (Inl e)
      | Some (Inr (moved2, s2)) \<Rightarrow>
     if moved2 then next_loop s2 else
     (case advance_hour s2 of
        Inl e \<Rightarrow> Some (Inl e)
      | Inr (moved3, s3) \<Rightarrow>
     if moved3 then next_loop s3 else
     (case advance_minute s3 of
        Inl e \<Rightarrow> Some (Inl e)
      | Inr (moved4, s4) \<Rightarrow>
     if moved4 then next_loop s4 else
     (case advance_second s4 of
        Inl e \<Rightarrow> Some (Inl e)
      | Inr (moved5, s5) \<Rightarrow>
     if moved5 then next_loop s5 else Some (Inr (dt s5, s5)))))))"

declare next_loop.simps [code]

definition CronSim_next :: "CronSim \<Rightarrow> (error + datetime \<times> CronSim) option" where
  "CronSim_next self =
     (case datetime_add (dt self) 1 of
        Inl e \<Rightarrow> Some (Inl e)
      | Inr t \<Rightarrow> next_loop (self\<lparr>dt := t\<rparr>))"

section \<open>Properties of the field grammar\<close>

text \<open>The branches of \<open>parse\<close>, one equation each.\<close>

lemma parse_star: "parse f ''*'' = Inr (RANGES f)"
  by (subst parse.simps) simp

lemma parse_comma:
  "CHR '','' \<in> set s \<Longrightarrow> parse f s = update_all (map (parse f) (split_on CHR '','' s))"
  by (subst parse.simps) auto

lemma parse_hash:
  "CHR '','' \<notin> set s \<Longrightarrow> CHR ''#'' \<in> set s \<Longrightarrow>
   parse DOW s =
     (case int' (snd (split1 CHR ''#'' s)) 1 of
        Inl e \<Rightarrow> Inl e
      | Inr n \<Rightarrow>
          (case Field_int DOW (fst (split1 CHR ''#'' s)) of
             Inl e \<Rightarrow> Inl e
           | Inr v \<Rightarrow> Inr {Tuple v n}))"
  by (subst parse.simps) auto

lemma parse_slash:
  "CHR '','' \<notin> set s \<Longrightarrow> \<not> (CHR ''#'' \<in> set s \<and> f = DOW) \<Longrightarrow> CHR ''/'' \<in> set s \<Longrightarrow>
   parse f s =
     (case int' (snd (split1 CHR ''/'' s)) 1 of
        Inl e \<Rightarrow> Inl e
      | Inr step \<Rightarrow>
          (case parse f (fst (split1 CHR ''/'' s)) of
             Inl e \<Rightarrow> Inl e
           | Inr S \<Rightarrow>
               (case py_sorted S of
                  Inl e \<Rightarrow> Inl e
                | Inr items \<Rightarrow>
                    if items = [LAST] then Inr (Num ` set items)
                    else if length items = 1 then
                      Inr (Num ` set (every_nth (nat step)
                             [hd items .. Max (int_of ` RANGES f)]))
                    else Inr (Num ` set (every_nth (nat step) items)))))"
  by (subst parse.simps) auto

lemma parse_range:
  "CHR '','' \<notin> set s \<Longrightarrow> \<not> (CHR ''#'' \<in> set s \<and> f = DOW) \<Longrightarrow> CHR ''/'' \<notin> set s \<Longrightarrow>
   CHR ''-'' \<in> set s \<Longrightarrow>
   parse f s =
     (case Field_int f (fst (split1 CHR ''-'' s)) of
        Inl e \<Rightarrow> Inl e
      | Inr start \<Rightarrow>
          (case Field_int f (snd (split1 CHR ''-'' s)) of
             Inl e \<Rightarrow> Inl e
           | Inr endv \<Rightarrow>
               if endv < start
               then Inl (CronSimError ''Range end cannot be smaller than start'')
               else Inr (Num ` set [start .. endv])))"
  by (subst parse.simps) auto

lemma parse_atom:
  "s \<noteq> ''*'' \<Longrightarrow> CHR '','' \<notin> set s \<Longrightarrow> \<not> (CHR ''#'' \<in> set s \<and> f = DOW) \<Longrightarrow>
   CHR ''/'' \<notin> set s \<Longrightarrow> CHR ''-'' \<notin> set s \<Longrightarrow>
   parse f s =
     (if f = DAY \<and> (s = ''L'' \<or> s = ''l'') then Inr {Num LAST}
      else (case Field_int f s of Inl e \<Rightarrow> Inl e | Inr v \<Rightarrow> Inr {Num v}))"
  by (subst parse.simps) auto

text \<open>
  The items a constraint set of a field can hold: the field's domain, the last-day sentinel
  for the day field, and the \<open>(weekday, nth)\<close> tuples for the day-of-week field.
\<close>

definition field_items :: "Field \<Rightarrow> item set" where
  "field_items f =
     RANGES f \<union> (if f = DAY then {Num LAST} else {})
       \<union> (if f = DOW then (\<lambda>(v, n). Tuple v n) ` ({0..6} \<times> {1..99}) else {})"

lemma finite_field_items: "finite (field_items f)"
  by (cases f) (simp_all add: field_items_def)

lemma index_of_less: "x \<in> set xs \<Longrightarrow> index_of x xs < length xs"
  by (induction xs) auto

lemma digit_val_bounds: "c \<in> set digit_chars \<Longrightarrow> 0 \<le> digit_val c \<and> digit_val c \<le> 9"
  using index_of_less[of c digit_chars] by (simp add: digit_val_def digit_chars_def)

lemma py_int_bounds:
  assumes "py_int s = Inr v" "length s \<le> 2"
  shows "0 \<le> v \<and> v \<le> 99"
proof -
  from assms(1) have d: "\<forall>c \<in> set s. c \<in> set digit_chars"
    and v: "v = foldl (\<lambda>acc c. 10 * acc + digit_val c) 0 s"
    by (auto simp: py_int_def split: if_splits)
  consider "s = []" | a where "s = [a]" | a b where "s = [a, b]"
    using assms(2) by (cases s; cases "tl s"; cases "tl (tl s)") auto
  then show ?thesis
  proof cases
    case 1 with v show ?thesis by simp
  next
    case 2 with v d digit_val_bounds[of a] show ?thesis by simp
  next
    case 3 with v d digit_val_bounds[of a] digit_val_bounds[of b] show ?thesis by simp
  qed
qed

lemma int'_bounds: "int' s m = Inr v \<Longrightarrow> m \<le> v \<and> 0 \<le> v \<and> v \<le> 99"
  using py_int_bounds[of s]
  by (auto simp: int'_def split: if_splits sum.splits)

lemma RANGES_mem:
  "Num v \<in> RANGES f \<longleftrightarrow>
     (case f of MINUTE \<Rightarrow> 0 \<le> v \<and> v \<le> 59 | HOUR \<Rightarrow> 0 \<le> v \<and> v \<le> 23
      | DAY \<Rightarrow> 1 \<le> v \<and> v \<le> 31 | MONTH \<Rightarrow> 1 \<le> v \<and> v \<le> 12
      | DOW \<Rightarrow> 0 \<le> v \<and> v \<le> 6 | SECOND \<Rightarrow> 0 \<le> v \<and> v \<le> 59)"
  by (cases f) auto

lemma Field_int_range: "Field_int f s = Inr v \<Longrightarrow> Num v \<in> RANGES f"
proof -
  assume a: "Field_int f s = Inr v"
  show ?thesis
  proof (cases "f = MONTH \<and> upper s \<in> set SYMBOLIC_MONTHS")
    case True
    with a index_of_less[of "upper s" SYMBOLIC_MONTHS] show ?thesis
      by (auto simp: Field_int_def SYMBOLIC_MONTHS_def)
  next
    case False
    note nm = this
    show ?thesis
    proof (cases "f = DOW \<and> upper s \<in> set SYMBOLIC_DAYS")
      case True
      with a nm index_of_less[of "upper s" SYMBOLIC_DAYS] show ?thesis
        by (auto simp: Field_int_def SYMBOLIC_DAYS_def)
    next
      case False
      with a nm show ?thesis
        by (auto simp: Field_int_def split: sum.splits if_splits)
    qed
  qed
qed

lemma update_all_Inr:
  "update_all rs = Inr S \<Longrightarrow> \<forall>r \<in> set rs. \<exists>T. r = Inr T \<and> T \<subseteq> S"
proof (induction rs arbitrary: S rule: update_all.induct)
  case 1 then show ?case by simp
next
  case (2 e rs) then show ?case by simp
next
  case (3 T rs)
  then show ?case by (fastforce split: sum.splits)
qed

lemma update_all_Inr_union:
  "update_all rs = Inr S \<Longrightarrow> x \<in> S \<Longrightarrow> \<exists>T. Inr T \<in> set rs \<and> x \<in> T"
proof (induction rs arbitrary: S rule: update_all.induct)
  case 1 then show ?case by simp
next
  case (2 e rs) then show ?case by simp
next
  case (3 T rs)
  then show ?case by (fastforce split: sum.splits)
qed

lemma split_on_nonempty: "split_on sep s \<noteq> []"
  by (induction s) (auto split: list.splits)

lemma set_every_nth_subset: "set (every_nth n xs) \<subseteq> set xs"
proof (induction n xs rule: every_nth.induct)
  case (1 step) then show ?case by simp
next
  case (2 step x xs)
  have "set (drop (step - 1) xs) \<subseteq> set xs" by (rule set_drop_subset)
  with 2 show ?case by auto
qed

lemma every_nth_nonempty: "xs \<noteq> [] \<Longrightarrow> every_nth n xs \<noteq> []"
  by (cases xs) auto

lemma py_sorted_Inr:
  "py_sorted S = Inr items \<Longrightarrow> finite S \<Longrightarrow>
     (\<forall>x \<in> S. is_Num x) \<and> Num ` set items = S \<and> sorted items \<and> distinct items"
proof -
  assume a: "py_sorted S = Inr items" and f: "finite S"
  then have n: "\<forall>x \<in> S. is_Num x" and i: "items = sorted_list_of_set (int_of ` S)"
    by (auto simp: py_sorted_def split: if_splits)
  have "Num ` int_of ` S = S"
  proof -
    have "\<And>x. x \<in> S \<Longrightarrow> Num (int_of x) = x"
      using n by (case_tac x) auto
    then show ?thesis by (force simp: image_iff)
  qed
  with n i f show ?thesis by simp
qed

lemma Max_upto: "a \<le> b \<Longrightarrow> Max {a..b::int} = b"
  by (rule Max_eqI) auto

lemma field_max:
  "Max (int_of ` RANGES f) =
     (case f of MINUTE \<Rightarrow> 59 | HOUR \<Rightarrow> 23 | DAY \<Rightarrow> 31 | MONTH \<Rightarrow> 12 | DOW \<Rightarrow> 6 | SECOND \<Rightarrow> 59)"
  by (cases f) (simp_all add: image_image Max_upto)

lemma RANGES_upto_max:
  "Num v \<in> RANGES f \<Longrightarrow> Num ` set [v .. Max (int_of ` RANGES f)] \<subseteq> RANGES f"
  unfolding field_max by (cases f) auto

lemma RANGES_le_max:
  "Num v \<in> RANGES f \<Longrightarrow> v \<le> Max (int_of ` RANGES f)"
  unfolding field_max by (cases f) auto

lemma split_on_set: "t \<in> set (split_on sep s) \<Longrightarrow> set t \<subseteq> set s"
  by (induction s arbitrary: t) (fastforce split: if_splits list.splits)+

lemma split1_fst_set: "set (fst (split1 sep s)) \<subseteq> set s"
  unfolding split1_def by (auto dest: set_takeWhileD)

lemma field_items_Num: "Num v \<in> field_items f \<longleftrightarrow> Num v \<in> RANGES f \<or> (f = DAY \<and> v = LAST)"
  by (auto simp: field_items_def)

lemma field_items_Tuple:
  "Tuple v n \<in> field_items f \<longleftrightarrow> f = DOW \<and> 0 \<le> v \<and> v \<le> 6 \<and> 1 \<le> n \<and> n \<le> 99"
  by (cases f) (auto simp: field_items_def)

lemma RANGES_subset_field_items: "RANGES f \<subseteq> field_items f"
  unfolding field_items_def by blast

lemma parse_sound: "parse f s = Inr S \<Longrightarrow> S \<noteq> {} \<and> S \<subseteq> field_items f"
proof (induction f s arbitrary: S rule: parse.induct)
  case (1 self s)
  note IH1 = "1.IH"(1) and IH2 = "1.IH"(2) and res = "1.prems"
  show ?case
  proof (cases "s = ''*''")
    case True
    with res have "S = RANGES self" by (simp add: parse_star)
    then show ?thesis by (cases self) (auto simp: field_items_def)
  next
    case ns: False
    show ?thesis
    proof (cases "CHR '','' \<in> set s")
      case True
      with res have u: "update_all (map (parse self) (split_on CHR '','' s)) = Inr S"
        by (simp add: parse_comma)
      obtain t where t: "t \<in> set (split_on CHR '','' s)"
        using split_on_nonempty[of "CHR '',''" s] by (cases "split_on CHR '','' s") auto
      from update_all_Inr[OF u] t obtain T where T: "parse self t = Inr T" "T \<subseteq> S"
        by auto
      from IH1[OF ns True t T(1)] T(2) have ne: "S \<noteq> {}" by auto
      have "S \<subseteq> field_items self"
      proof
        fix x assume "x \<in> S"
        from update_all_Inr_union[OF u this] obtain T' t' where
          "t' \<in> set (split_on CHR '','' s)" "parse self t' = Inr T'" "x \<in> T'"
          by (auto simp: image_iff) metis
        with IH1[OF ns True this(1) this(2)] show "x \<in> field_items self" by auto
      qed
      with ne show ?thesis by simp
    next
      case nc: False
      show ?thesis
      proof (cases "CHR ''#'' \<in> set s \<and> self = DOW")
        case True
        with nc res obtain v n where
          n: "int' (snd (split1 CHR ''#'' s)) 1 = Inr n"
          and v: "Field_int DOW (fst (split1 CHR ''#'' s)) = Inr v" and S: "S = {Tuple v n}"
          by (auto simp: parse_hash split: sum.splits)
        from Field_int_range[OF v] have "0 \<le> v \<and> v \<le> 6" by auto
        with int'_bounds[OF n] S True show ?thesis
          by (simp add: field_items_Tuple)
      next
        case nh: False
        show ?thesis
        proof (cases "CHR ''/'' \<in> set s")
          case True
          from res obtain step T items where
            st: "int' (snd (split1 CHR ''/'' s)) 1 = Inr step"
            and T: "parse self (fst (split1 CHR ''/'' s)) = Inr T"
            and it: "py_sorted T = Inr items"
            and S: "S = (if items = [LAST] then Num ` set items
                         else if length items = 1
                         then Num ` set (every_nth (nat step)
                                [hd items .. Max (int_of ` RANGES self)])
                         else Num ` set (every_nth (nat step) items))"
            by (auto simp: parse_slash[OF nc nh True] split: sum.splits if_splits)
          from IH2[OF ns nc nh True st T] have Tne: "T \<noteq> {}" and Tsub: "T \<subseteq> field_items self"
            by auto
          from Tsub finite_field_items have "finite T" by (rule finite_subset)
          from py_sorted_Inr[OF it this] have
            items: "Num ` set items = T" "\<forall>x\<in>T. is_Num x" by auto
          with Tne have ine: "items \<noteq> []" by auto
          show ?thesis
          proof (cases "items = [LAST]")
            case True
            with S items Tne Tsub show ?thesis by simp
          next
            case nl: False
            show ?thesis
            proof (cases "length items = 1")
              case True
              then obtain v where v: "items = [v]" by (cases items) auto
              with items have "Num v \<in> T" by auto
              with Tsub nl v have r: "Num v \<in> RANGES self"
                by (auto simp: field_items_Num)
              from nl True S v have S': "S = Num ` set (every_nth (nat step)
                                [v .. Max (int_of ` RANGES self)])" by simp
              have "[v .. Max (int_of ` RANGES self)] \<noteq> []"
                using RANGES_le_max[OF r] by (simp add: upto.simps)
              from every_nth_nonempty[OF this] have "S \<noteq> {}" unfolding S' by simp
              moreover have "S \<subseteq> field_items self"
              proof -
                have "S \<subseteq> Num ` set [v .. Max (int_of ` RANGES self)]"
                  unfolding S' by (rule image_mono) (rule set_every_nth_subset)
                also note RANGES_upto_max[OF r]
                also note RANGES_subset_field_items
                finally show ?thesis .
              qed
              ultimately show ?thesis by simp
            next
              case False
              with nl S have S': "S = Num ` set (every_nth (nat step) items)" by simp
              from every_nth_nonempty[OF ine] have "S \<noteq> {}" unfolding S' by simp
              moreover have "S \<subseteq> T"
                using set_every_nth_subset[of "nat step" items] items(1) unfolding S' by auto
              ultimately show ?thesis using Tsub by auto
            qed
          qed
        next
          case nsl: False
          show ?thesis
          proof (cases "CHR ''-'' \<in> set s")
            case True
            from res obtain a b where
              a: "Field_int self (fst (split1 CHR ''-'' s)) = Inr a"
              and b: "Field_int self (snd (split1 CHR ''-'' s)) = Inr b"
              and le: "a \<le> b" and S: "S = Num ` set [a .. b]"
              by (auto simp: parse_range[OF nc nh nsl True] split: sum.splits if_splits)
            from Field_int_range[OF a] Field_int_range[OF b] le S show ?thesis
              by (cases self) (auto simp: field_items_def)
          next
            case False
            from res parse_atom[OF ns nc nh nsl False]
            have "S = {Num LAST} \<and> self = DAY \<or> (\<exists>v. Field_int self s = Inr v \<and> S = {Num v})"
              by (auto split: if_splits sum.splits)
            with Field_int_range[of self s] show ?thesis
              by (auto simp: field_items_def)
          qed
        qed
      qed
    qed
  qed
qed

section \<open>Errors of the field grammar\<close>

text \<open>The errors that parsing one field can raise.\<close>

definition field_error :: "error \<Rightarrow> bool" where
  "field_error e =
     (e = ValueError \<or> e = TypeError
      \<or> e = CronSimError ''Range end cannot be smaller than start''
      \<or> (\<exists>v. e = bad_value v))"

lemma update_all_Inl: "update_all rs = Inl e \<Longrightarrow> Inl e \<in> set rs"
proof (induction rs rule: update_all.induct)
  case 1 then show ?case by simp
next
  case (2 e' rs) then show ?case by simp
next
  case (3 T rs) then show ?case by (auto split: sum.splits)
qed

lemma int'_error: "int' s m = Inl e \<Longrightarrow> field_error e"
  by (auto simp: int'_def field_error_def py_int_def split: if_splits sum.splits)

lemma Field_int_error: "Field_int f s = Inl e \<Longrightarrow> field_error e"
  by (auto simp: Field_int_def field_error_def dest: int'_error split: if_splits sum.splits)

lemma py_sorted_error: "py_sorted S = Inl e \<Longrightarrow> field_error e"
  by (auto simp: py_sorted_def field_error_def split: if_splits)

lemma parse_error: "parse f s = Inl e \<Longrightarrow> field_error e"
proof (induction f s arbitrary: e rule: parse.induct)
  case (1 self s)
  note IH1 = "1.IH"(1) and IH2 = "1.IH"(2) and res = "1.prems"
  show ?case
  proof (cases "s = ''*''")
    case True
    with res show ?thesis by (simp add: parse_star)
  next
    case ns: False
    show ?thesis
    proof (cases "CHR '','' \<in> set s")
      case True
      with res have "update_all (map (parse self) (split_on CHR '','' s)) = Inl e"
        by (simp add: parse_comma)
      from update_all_Inl[OF this] obtain t where
        "t \<in> set (split_on CHR '','' s)" "parse self t = Inl e"
        by (auto simp: image_iff)
      with IH1[OF ns True] show ?thesis by blast
    next
      case nc: False
      show ?thesis
      proof (cases "CHR ''#'' \<in> set s \<and> self = DOW")
        case True
        with nc res int'_error Field_int_error show ?thesis
          by (auto simp: parse_hash split: sum.splits)
      next
        case nh: False
        show ?thesis
        proof (cases "CHR ''/'' \<in> set s")
          case True
          from res have
            "(int' (snd (split1 CHR ''/'' s)) 1 = Inl e)
             \<or> (\<exists>step. int' (snd (split1 CHR ''/'' s)) 1 = Inr step
                   \<and> parse self (fst (split1 CHR ''/'' s)) = Inl e)
             \<or> (\<exists>T. py_sorted T = Inl e)"
            by (auto simp: parse_slash[OF nc nh True] split: sum.splits if_splits)
          with IH2[OF ns nc nh True] int'_error py_sorted_error show ?thesis by blast
        next
          case nsl: False
          show ?thesis
          proof (cases "CHR ''-'' \<in> set s")
            case True
            from res Field_int_error show ?thesis
              by (auto simp: parse_range[OF nc nh nsl True] field_error_def
                       split: sum.splits if_splits)
          next
            case False
            from res parse_atom[OF ns nc nh nsl False] Field_int_error show ?thesis
              by (auto split: if_splits sum.splits)
          qed
        qed
      qed
    qed
  qed
qed

lemma field_error_not_count: "field_error e \<Longrightarrow> e \<noteq> CronSimError ''Wrong number of fields''"
  by (auto simp: field_error_def bad_value_def)

section \<open>The constructor\<close>

text \<open>The field texts after the sixth one has been defaulted.\<close>

definition fields_of :: "string \<Rightarrow> string list" where
  "fields_of expr =
     (if length (split_ws expr) = 5 then split_ws expr @ [''0''] else split_ws expr)"

text \<open>The two adjustments of the disjunction rule, in the order the constructor makes them.\<close>

definition adjust_days :: "item set \<Rightarrow> item set \<Rightarrow> item set" where
  "adjust_days da wd = (if da = RANGES DAY \<and> wd \<noteq> RANGES DOW then {} else da)"

definition adjust_weekdays :: "item set \<Rightarrow> item set \<Rightarrow> item set" where
  "adjust_weekdays da wd =
     (if wd = RANGES DOW \<and> adjust_days da wd \<noteq> RANGES DAY then {} else wd)"

lemma CronSim_init_unfold:
  "CronSim_init expr t =
     (if length (fields_of expr) \<noteq> 6 then Inl (CronSimError ''Wrong number of fields'')
      else
        (case parse MINUTE (fields_of expr ! 0) of Inl e \<Rightarrow> Inl e | Inr mi \<Rightarrow>
        (case parse HOUR (fields_of expr ! 1) of Inl e \<Rightarrow> Inl e | Inr ho \<Rightarrow>
        (case parse DAY (fields_of expr ! 2) of Inl e \<Rightarrow> Inl e | Inr da \<Rightarrow>
        (case parse MONTH (fields_of expr ! 3) of Inl e \<Rightarrow> Inl e | Inr mo \<Rightarrow>
        (case parse DOW (fields_of expr ! 4) of Inl e \<Rightarrow> Inl e | Inr wd \<Rightarrow>
        (case parse SECOND (fields_of expr ! 5) of Inl e \<Rightarrow> Inl e | Inr se \<Rightarrow>
           Inr \<lparr>dt = t\<lparr>second := 0, microsecond := 0\<rparr>, minutes = mi, hours = ho,
                 days = adjust_days da wd, months = mo,
                 weekdays = adjust_weekdays da wd, seconds = se\<rparr>)))))))"
  unfolding CronSim_init_def fields_of_def adjust_days_def adjust_weekdays_def Let_def
  by (rule refl)

lemma CronSim_init_wrong_count:
  "length (fields_of expr) \<noteq> 6 \<Longrightarrow>
     CronSim_init expr t = Inl (CronSimError ''Wrong number of fields'')"
  by (simp add: CronSim_init_unfold)

lemma fields_of_length:
  "length (fields_of expr) = 6 \<longleftrightarrow> length (split_ws expr) = 5 \<or> length (split_ws expr) = 6"
  by (auto simp: fields_of_def)

lemma CronSim_init_Inr:
  assumes "CronSim_init expr t = Inr self"
  shows "\<exists>mi ho da mo wd se.
     length (fields_of expr) = 6 \<and>
     parse MINUTE (fields_of expr ! 0) = Inr mi \<and>
     parse HOUR (fields_of expr ! 1) = Inr ho \<and>
     parse DAY (fields_of expr ! 2) = Inr da \<and>
     parse MONTH (fields_of expr ! 3) = Inr mo \<and>
     parse DOW (fields_of expr ! 4) = Inr wd \<and>
     parse SECOND (fields_of expr ! 5) = Inr se \<and>
     self = \<lparr>dt = t\<lparr>second := 0, microsecond := 0\<rparr>, minutes = mi, hours = ho,
             days = adjust_days da wd, months = mo,
             weekdays = adjust_weekdays da wd, seconds = se\<rparr>"
proof -
  from assms have len: "length (fields_of expr) = 6"
    by (simp add: CronSim_init_unfold split: if_splits)
  show ?thesis
  proof (cases "parse MINUTE (fields_of expr ! 0)")
    case Inl with assms len show ?thesis by (simp add: CronSim_init_unfold)
  next
    case mi: (Inr mi)
    show ?thesis
    proof (cases "parse HOUR (fields_of expr ! 1)")
      case Inl with assms len mi show ?thesis by (simp add: CronSim_init_unfold)
    next
      case ho: (Inr ho)
      show ?thesis
      proof (cases "parse DAY (fields_of expr ! 2)")
        case Inl with assms len mi ho show ?thesis by (simp add: CronSim_init_unfold)
      next
        case da: (Inr da)
        show ?thesis
        proof (cases "parse MONTH (fields_of expr ! 3)")
          case Inl with assms len mi ho da show ?thesis by (simp add: CronSim_init_unfold)
        next
          case mo: (Inr mo)
          show ?thesis
          proof (cases "parse DOW (fields_of expr ! 4)")
            case Inl with assms len mi ho da mo show ?thesis
              by (simp add: CronSim_init_unfold)
          next
            case wd: (Inr wd)
            show ?thesis
            proof (cases "parse SECOND (fields_of expr ! 5)")
              case Inl with assms len mi ho da mo wd show ?thesis
                by (simp add: CronSim_init_unfold)
            next
              case se: (Inr se)
              with assms len mi ho da mo wd show ?thesis
                by (simp add: CronSim_init_unfold)
            qed
          qed
        qed
      qed
    qed
  qed
qed

lemma CronSim_init_Inl:
  assumes "CronSim_init expr t = Inl e"
  shows "(length (fields_of expr) \<noteq> 6 \<and> e = CronSimError ''Wrong number of fields'')
       \<or> (length (fields_of expr) = 6 \<and> field_error e)"
proof (cases "length (fields_of expr) = 6")
  case False
  with assms show ?thesis by (simp add: CronSim_init_unfold)
next
  case True
  have "\<exists>f s. parse f s = Inl e"
    using assms True unfolding CronSim_init_unfold
    by (simp split: sum.splits) blast+
  with parse_error True show ?thesis by blast
qed

text \<open>The field kinds in the order of the expression: \<open>Field(i)\<close>.\<close>

definition FIELDS :: "Field list" where
  "FIELDS = [MINUTE, HOUR, DAY, MONTH, DOW, SECOND]"

lemma CronSim_init_field_fails:
  assumes "length (fields_of expr) = 6" "i < 6"
    and "parse (FIELDS ! i) (fields_of expr ! i) = Inl e"
  shows "\<exists>e'. CronSim_init expr t = Inl e'"
proof -
  from assms(2) consider "i = 0" | "i = 1" | "i = 2" | "i = 3" | "i = 4" | "i = 5" by linarith
  then show ?thesis
    using assms(1,3) unfolding CronSim_init_unfold FIELDS_def
    by cases (simp_all split: sum.splits)
qed

section \<open>Example inputs\<close>

text \<open>\<open>NOW = datetime(2020, 1, 1)\<close>, the start instant of the test suite.\<close>

definition NOW :: datetime where
  "NOW = \<lparr>year = 2020, month = 1, day = 1, hour = 0, minute = 0, second = 0,
          microsecond = 0, tzinfo = None\<rparr>"

lemma init_dow_example:
  "CronSim_init ''* * * * 1'' t =
     Inr \<lparr>dt = t\<lparr>second := 0, microsecond := 0\<rparr>, minutes = RANGES MINUTE,
           hours = RANGES HOUR, days = {}, months = RANGES MONTH, weekdays = {Num 1},
           seconds = {Num 0}\<rparr>"
  by code_simp

lemma init_day_example:
  "CronSim_init ''* * 1 * *'' t =
     Inr \<lparr>dt = t\<lparr>second := 0, microsecond := 0\<rparr>, minutes = RANGES MINUTE,
           hours = RANGES HOUR, days = {Num 1}, months = RANGES MONTH, weekdays = {},
           seconds = {Num 0}\<rparr>"
  by code_simp

lemma split_ws_dow_example: "split_ws ''* * * * 1'' = [''*'', ''*'', ''*'', ''*'', ''1'']"
  by code_simp

lemma parse_second_default: "parse SECOND ''0'' = Inr {Num 0}"
  by code_simp

section \<open>Claims about the constructor\<close>

lemma fields_of_nth:
  "length (fields_of expr) = 6 \<Longrightarrow> i < 5 \<Longrightarrow> fields_of expr ! i = split_ws expr ! i"
  by (auto simp: fields_of_def nth_append)

lemma fields_of_default:
  "length (split_ws expr) = 5 \<Longrightarrow> fields_of expr ! 5 = ''0''"
  by (simp add: fields_of_def nth_append)

text \<open>
  C2, as the program has it: the constructor sets both the second and the microsecond of the
  start instant to zero, so the cursor is the start instant truncated to the whole minute; all
  other components are those of the start instant.
\<close>

theorem C2_cursor_truncated_to_minute:
  "CronSim_init expr t = Inr self \<Longrightarrow> dt self = t\<lparr>second := 0, microsecond := 0\<rparr>"
  by (drule CronSim_init_Inr) auto

theorem C2_cursor_truncated_to_minute_witness:
  "CronSim_init ''* * * * 1'' (NOW\<lparr>second := 30, microsecond := 250\<rparr>)
     = Inr \<lparr>dt = NOW, minutes = RANGES MINUTE,
           hours = RANGES HOUR, days = {}, months = RANGES MONTH, weekdays = {Num 1},
           seconds = {Num 0}\<rparr>
   \<and> dt \<lparr>dt = NOW, minutes = RANGES MINUTE,
           hours = RANGES HOUR, days = {}, months = RANGES MONTH, weekdays = {Num 1},
           seconds = {Num 0}\<rparr>
     = (NOW\<lparr>second := 30, microsecond := 250\<rparr>)\<lparr>second := 0, microsecond := 0\<rparr>"
proof -
  have h: "CronSim_init ''* * * * 1'' (NOW\<lparr>second := 30, microsecond := 250\<rparr>)
     = Inr \<lparr>dt = NOW, minutes = RANGES MINUTE,
           hours = RANGES HOUR, days = {}, months = RANGES MONTH, weekdays = {Num 1},
           seconds = {Num 0}\<rparr>"
    by (simp add: init_dow_example NOW_def)
  from C2_cursor_truncated_to_minute[OF h] h show ?thesis by simp
qed

text \<open>
  The claim C2 as stated fails: a start instant at second 30 with no microseconds does not
  become the cursor unchanged; the cursor is at second 0.
\<close>

theorem C2_seconds_discarded:
  "microsecond (NOW\<lparr>second := 30\<rparr>) = 0
   \<and> map_sum (\<lambda>e. e) dt (CronSim_init ''* * * * *'' (NOW\<lparr>second := 30\<rparr>)) = Inr NOW
   \<and> NOW \<noteq> NOW\<lparr>second := 30\<rparr>"
  by code_simp

text \<open>
  C6. The disjunction rule. For an accepted expression, let \<open>da\<close> and \<open>wd\<close> be the parsed
  day-of-month and day-of-week sets. If \<open>da\<close> is the full domain and \<open>wd\<close> is not, the day set
  becomes empty and the weekday set stays \<open>wd\<close>; if \<open>wd\<close> is the full domain and \<open>da\<close> is not,
  the weekday set becomes empty and the day set stays \<open>da\<close>; if both or neither are the full
  domain, both stay as parsed. \<open>* * * * 1\<close> gives days \<open>{}\<close> and weekdays \<open>{1}\<close>;
  \<open>* * 1 * *\<close> gives days \<open>{1}\<close> and weekdays \<open>{}\<close>.
\<close>

theorem C6_disjunction_rule:
  "(CronSim_init expr t = Inr self \<longrightarrow>
      (\<exists>da wd. parse DAY (split_ws expr ! 2) = Inr da \<and> parse DOW (split_ws expr ! 4) = Inr wd \<and>
         (da = RANGES DAY \<and> wd \<noteq> RANGES DOW \<longrightarrow> days self = {} \<and> weekdays self = wd) \<and>
         (wd = RANGES DOW \<and> da \<noteq> RANGES DAY \<longrightarrow> weekdays self = {} \<and> days self = da) \<and>
         ((da = RANGES DAY) = (wd = RANGES DOW) \<longrightarrow> days self = da \<and> weekdays self = wd)))
   \<and> map_sum (\<lambda>e. e) (\<lambda>c. (days c, weekdays c)) (CronSim_init ''* * * * 1'' t)
       = Inr ({}, {Num 1})
   \<and> map_sum (\<lambda>e. e) (\<lambda>c. (days c, weekdays c)) (CronSim_init ''* * 1 * *'' t)
       = Inr ({Num 1}, {})"
proof (intro conjI impI)
  assume "CronSim_init expr t = Inr self"
  from CronSim_init_Inr[OF this] obtain da wd where
    len: "length (fields_of expr) = 6"
    and da: "parse DAY (fields_of expr ! 2) = Inr da"
    and wd: "parse DOW (fields_of expr ! 4) = Inr wd"
    and d: "days self = adjust_days da wd" and w: "weekdays self = adjust_weekdays da wd"
    by auto
  from da wd len have "parse DAY (split_ws expr ! 2) = Inr da"
    "parse DOW (split_ws expr ! 4) = Inr wd"
    by (simp_all add: fields_of_nth)
  moreover have "da = RANGES DAY \<and> wd \<noteq> RANGES DOW \<longrightarrow> days self = {} \<and> weekdays self = wd"
    by (simp add: d w adjust_days_def adjust_weekdays_def)
  moreover have "wd = RANGES DOW \<and> da \<noteq> RANGES DAY \<longrightarrow> weekdays self = {} \<and> days self = da"
    by (simp add: d w adjust_days_def adjust_weekdays_def)
  moreover have "(da = RANGES DAY) = (wd = RANGES DOW) \<longrightarrow> days self = da \<and> weekdays self = wd"
    by (auto simp: d w adjust_days_def adjust_weekdays_def)
  ultimately show "\<exists>da wd. parse DAY (split_ws expr ! 2) = Inr da \<and>
         parse DOW (split_ws expr ! 4) = Inr wd \<and>
         (da = RANGES DAY \<and> wd \<noteq> RANGES DOW \<longrightarrow> days self = {} \<and> weekdays self = wd) \<and>
         (wd = RANGES DOW \<and> da \<noteq> RANGES DAY \<longrightarrow> weekdays self = {} \<and> days self = da) \<and>
         ((da = RANGES DAY) = (wd = RANGES DOW) \<longrightarrow> days self = da \<and> weekdays self = wd)"
    by blast
next
  show "map_sum (\<lambda>e. e) (\<lambda>c. (days c, weekdays c)) (CronSim_init ''* * * * 1'' t)
       = Inr ({}, {Num 1})"
    by (simp add: init_dow_example)
next
  show "map_sum (\<lambda>e. e) (\<lambda>c. (days c, weekdays c)) (CronSim_init ''* * 1 * *'' t)
       = Inr ({Num 1}, {})"
    by (simp add: init_day_example)
qed

theorem C6_disjunction_rule_witness:
  "CronSim_init ''* * * * 1'' NOW
     = Inr \<lparr>dt = NOW, minutes = RANGES MINUTE, hours = RANGES HOUR, days = {},
            months = RANGES MONTH, weekdays = {Num 1}, seconds = {Num 0}\<rparr>
   \<and> parse DAY (split_ws ''* * * * 1'' ! 2) = Inr (RANGES DAY)
   \<and> parse DOW (split_ws ''* * * * 1'' ! 4) = Inr {Num 1}
   \<and> {Num 1} \<noteq> RANGES DOW
   \<and> days \<lparr>dt = NOW, minutes = RANGES MINUTE, hours = RANGES HOUR, days = {},
            months = RANGES MONTH, weekdays = {Num 1}, seconds = {Num 0}\<rparr> = {}
   \<and> weekdays \<lparr>dt = NOW, minutes = RANGES MINUTE, hours = RANGES HOUR, days = {},
            months = RANGES MONTH, weekdays = {Num 1}, seconds = {Num 0}\<rparr> = {Num 1}"
proof -
  let ?c = "\<lparr>dt = NOW, minutes = RANGES MINUTE, hours = RANGES HOUR, days = {},
            months = RANGES MONTH, weekdays = {Num 1}, seconds = {Num 0}\<rparr>"
  have h: "CronSim_init ''* * * * 1'' NOW = Inr ?c"
    by (simp add: init_dow_example NOW_def)
  have pd: "parse DAY (split_ws ''* * * * 1'' ! 2) = Inr (RANGES DAY)"
    by (simp add: split_ws_dow_example parse_star)
  have pw: "parse DOW (split_ws ''* * * * 1'' ! 4) = Inr {Num 1}"
    unfolding split_ws_dow_example by code_simp
  have ne: "{Num 1} \<noteq> RANGES DOW"
  proof
    assume eq: "{Num 1} = RANGES DOW"
    have "Num 0 \<in> RANGES DOW" by simp
    with eq[symmetric] show False by simp
  qed
  from C6_disjunction_rule[of "''* * * * 1''" NOW ?c] h obtain da wd where
    "parse DAY (split_ws ''* * * * 1'' ! 2) = Inr da"
    "parse DOW (split_ws ''* * * * 1'' ! 4) = Inr wd"
    "da = RANGES DAY \<and> wd \<noteq> RANGES DOW \<longrightarrow> days ?c = {} \<and> weekdays ?c = wd"
    by blast
  with pd pw ne have "days ?c = {} \<and> weekdays ?c = {Num 1}" by simp
  with h pd pw ne show ?thesis by blast
qed

text \<open>
  C8. The constructor raises \<open>CronSimError("Wrong number of fields")\<close> exactly when the
  whitespace-split expression has neither 5 nor 6 fields. With exactly 5 fields the sixth
  field text is \<open>"0"\<close>, and an accepted expression has the second set \<open>{0}\<close>.
\<close>

theorem C8_wrong_field_count:
  "(CronSim_init expr t = Inl (CronSimError ''Wrong number of fields'')
      \<longleftrightarrow> length (split_ws expr) \<noteq> 5 \<and> length (split_ws expr) \<noteq> 6)
   \<and> (length (split_ws expr) = 5 \<longrightarrow>
        fields_of expr = split_ws expr @ [''0''] \<and>
        (\<forall>self. CronSim_init expr t = Inr self \<longrightarrow> seconds self = {Num 0}))"
proof (intro conjI impI allI iffI)
  assume "CronSim_init expr t = Inl (CronSimError ''Wrong number of fields'')"
  from CronSim_init_Inl[OF this] field_error_not_count
  have "length (fields_of expr) \<noteq> 6" by blast
  then show "length (split_ws expr) \<noteq> 5" "length (split_ws expr) \<noteq> 6"
    by (simp_all add: fields_of_length)
next
  assume "length (split_ws expr) \<noteq> 5 \<and> length (split_ws expr) \<noteq> 6"
  then have "length (fields_of expr) \<noteq> 6" by (simp add: fields_of_length)
  then show "CronSim_init expr t = Inl (CronSimError ''Wrong number of fields'')"
    by (rule CronSim_init_wrong_count)
next
  assume "length (split_ws expr) = 5"
  then show "fields_of expr = split_ws expr @ [''0'']" by (simp add: fields_of_def)
next
  fix self
  assume five: "length (split_ws expr) = 5" and "CronSim_init expr t = Inr self"
  from CronSim_init_Inr[OF this(2)] obtain se where
    "parse SECOND (fields_of expr ! 5) = Inr se" "seconds self = se" by auto
  with fields_of_default[OF five] parse_second_default show "seconds self = {Num 0}" by simp
qed

theorem C8_wrong_field_count_witness:
  "CronSim_init ''* * * *'' NOW = Inl (CronSimError ''Wrong number of fields'')
   \<and> length (split_ws ''* * * *'') = 4
   \<and> length (split_ws ''* * * * 1'') = 5
   \<and> fields_of ''* * * * 1'' = split_ws ''* * * * 1'' @ [''0'']
   \<and> CronSim_init ''* * * * 1'' NOW
        = Inr \<lparr>dt = NOW, minutes = RANGES MINUTE, hours = RANGES HOUR, days = {},
               months = RANGES MONTH, weekdays = {Num 1}, seconds = {Num 0}\<rparr>
   \<and> seconds \<lparr>dt = NOW, minutes = RANGES MINUTE, hours = RANGES HOUR, days = {},
               months = RANGES MONTH, weekdays = {Num 1}, seconds = {Num 0}\<rparr> = {Num 0}"
proof -
  let ?c = "\<lparr>dt = NOW, minutes = RANGES MINUTE, hours = RANGES HOUR, days = {},
            months = RANGES MONTH, weekdays = {Num 1}, seconds = {Num 0}\<rparr>"
  have l4: "length (split_ws ''* * * *'') = 4" by code_simp
  have l5: "length (split_ws ''* * * * 1'') = 5" by (simp add: split_ws_dow_example)
  have h: "CronSim_init ''* * * * 1'' NOW = Inr ?c"
    by (simp add: init_dow_example NOW_def)
  from C8_wrong_field_count[of "''* * * *''" NOW] l4
  have a: "CronSim_init ''* * * *'' NOW = Inl (CronSimError ''Wrong number of fields'')"
    by simp
  from C8_wrong_field_count[of "''* * * * 1''" NOW] l5 h
  have b: "fields_of ''* * * * 1'' = split_ws ''* * * * 1'' @ [''0'']" "seconds ?c = {Num 0}"
    by blast+
  from a b l4 l5 h show ?thesis by blast
qed

text \<open>
  C10. Field parsing never yields an empty set, and for every accepted expression the minute,
  hour, month and second sets are non-empty and the day and weekday sets are not both empty.
\<close>

theorem C10_constraint_sets_nonempty:
  "(parse f s = Inr S \<longrightarrow> S \<noteq> {})
   \<and> (CronSim_init expr t = Inr self \<longrightarrow>
        \<not> (days self = {} \<and> weekdays self = {}) \<and> minutes self \<noteq> {} \<and> hours self \<noteq> {}
        \<and> months self \<noteq> {} \<and> seconds self \<noteq> {})"
proof (intro conjI impI)
  assume "parse f s = Inr S"
  then show "S \<noteq> {}" by (simp add: parse_sound)
next
  assume "CronSim_init expr t = Inr self"
  from CronSim_init_Inr[OF this] obtain mi ho da mo wd se where
    p: "parse MINUTE (fields_of expr ! 0) = Inr mi" "parse HOUR (fields_of expr ! 1) = Inr ho"
       "parse DAY (fields_of expr ! 2) = Inr da" "parse MONTH (fields_of expr ! 3) = Inr mo"
       "parse DOW (fields_of expr ! 4) = Inr wd" "parse SECOND (fields_of expr ! 5) = Inr se"
    and s: "minutes self = mi" "hours self = ho" "months self = mo" "seconds self = se"
       "days self = adjust_days da wd" "weekdays self = adjust_weekdays da wd"
    by auto
  from p[THEN parse_sound] have ne: "mi \<noteq> {}" "ho \<noteq> {}" "da \<noteq> {}" "mo \<noteq> {}" "wd \<noteq> {}" "se \<noteq> {}"
    by simp_all
  then have "\<not> (adjust_days da wd = {} \<and> adjust_weekdays da wd = {})"
    by (auto simp: adjust_days_def adjust_weekdays_def split: if_splits)
  with ne s show "\<not> (days self = {} \<and> weekdays self = {})" "minutes self \<noteq> {}"
    "hours self \<noteq> {}" "months self \<noteq> {}" "seconds self \<noteq> {}"
    by simp_all
qed

theorem C10_constraint_sets_nonempty_witness:
  "parse DOW ''1'' = Inr {Num 1} \<and> {Num (1::int)} \<noteq> {}
   \<and> CronSim_init ''* * * * 1'' NOW
        = Inr \<lparr>dt = NOW, minutes = RANGES MINUTE, hours = RANGES HOUR, days = {},
               months = RANGES MONTH, weekdays = {Num 1}, seconds = {Num 0}\<rparr>
   \<and> weekdays \<lparr>dt = NOW, minutes = RANGES MINUTE, hours = RANGES HOUR, days = {},
               months = RANGES MONTH, weekdays = {Num 1}, seconds = {Num 0}\<rparr> \<noteq> {}
   \<and> minutes \<lparr>dt = NOW, minutes = RANGES MINUTE, hours = RANGES HOUR, days = {},
               months = RANGES MONTH, weekdays = {Num 1}, seconds = {Num 0}\<rparr> \<noteq> {}"
proof -
  let ?c = "\<lparr>dt = NOW, minutes = RANGES MINUTE, hours = RANGES HOUR, days = {},
            months = RANGES MONTH, weekdays = {Num 1}, seconds = {Num 0}\<rparr>"
  have p: "parse DOW ''1'' = Inr {Num 1}" by code_simp
  have h: "CronSim_init ''* * * * 1'' NOW = Inr ?c"
    by (simp add: init_dow_example NOW_def)
  from C10_constraint_sets_nonempty[of DOW "''1''" "{Num 1}" "''* * * * 1''" NOW ?c] p h
  have "{Num (1::int)} \<noteq> {}" "\<not> (days ?c = {} \<and> weekdays ?c = {})" "minutes ?c \<noteq> {}"
    by blast+
  then have "weekdays ?c \<noteq> {}" "minutes ?c \<noteq> {}" by simp_all
  with p h show ?thesis by blast
qed

section \<open>Malformed terms\<close>

lemma split_on_no_sep: "sep \<notin> set s \<Longrightarrow> split_on sep s = [s]"
  by (induction s) auto

lemma split_on_pieces_no_sep: "t \<in> set (split_on sep s) \<Longrightarrow> sep \<notin> set t"
  by (induction s arbitrary: t) (fastforce split: if_splits list.splits)+

lemma split_on_covers:
  "c \<in> set s \<Longrightarrow> c \<noteq> sep \<Longrightarrow> \<exists>t \<in> set (split_on sep s). c \<in> set t"
proof (induction s)
  case Nil then show ?case by simp
next
  case (Cons x xs)
  obtain p ps where ps: "split_on sep xs = p # ps"
    using split_on_nonempty[of sep xs] by (cases "split_on sep xs") auto
  show ?case
  proof (cases "c = x")
    case True
    with Cons.prems ps show ?thesis by auto
  next
    case False
    with Cons obtain t where "t \<in> set (split_on sep xs)" "c \<in> set t" by auto
    with ps show ?thesis by (cases "x = sep") auto
  qed
qed

lemma split1_append: "sep \<notin> set a \<Longrightarrow> split1 sep (a @ sep # b) = (a, b)"
  unfolding split1_def by (induction a) auto

lemma split1_covers:
  "c \<in> set s \<Longrightarrow> c \<noteq> sep \<Longrightarrow>
     c \<in> set (fst (split1 sep s)) \<or> c \<in> set (snd (split1 sep s))"
proof -
  assume c: "c \<in> set s" "c \<noteq> sep"
  have "s = takeWhile (\<lambda>x. x \<noteq> sep) s @ dropWhile (\<lambda>x. x \<noteq> sep) s" by simp
  then have "c \<in> set (takeWhile (\<lambda>x. x \<noteq> sep) s) \<or> c \<in> set (dropWhile (\<lambda>x. x \<noteq> sep) s)"
    using c(1) by (metis Un_iff set_append)
  moreover have "c \<in> set (dropWhile (\<lambda>x. x \<noteq> sep) s) \<Longrightarrow> c \<in> set (tl (dropWhile (\<lambda>x. x \<noteq> sep) s))"
  proof (cases "dropWhile (\<lambda>x. x \<noteq> sep) s")
    case Nil then show "c \<in> set (dropWhile (\<lambda>x. x \<noteq> sep) s) \<Longrightarrow> ?thesis" by simp
  next
    case (Cons y ys)
    then have "y = sep" using hd_dropWhile[of "\<lambda>x. x \<noteq> sep" s] by auto
    with Cons c(2) show "c \<in> set (dropWhile (\<lambda>x. x \<noteq> sep) s) \<Longrightarrow> ?thesis" by auto
  qed
  ultimately show ?thesis by (auto simp: split1_def)
qed

text \<open>The characters that separate the grammar's constructs occur in no plain value.\<close>

definition special_chars :: "char list" where
  "special_chars = '',#/-*''"

lemma special_cases:
  "c \<in> set special_chars \<Longrightarrow>
     c = CHR '','' \<or> c = CHR ''#'' \<or> c = CHR ''/'' \<or> c = CHR ''-'' \<or> c = CHR ''*''"
  by (simp add: special_chars_def)

lemma special_not_digit:
  "c \<in> set special_chars \<Longrightarrow> c \<notin> set digit_chars \<and> c \<notin> set superscript_chars"
  by (drule special_cases) (elim disjE; simp add: digit_chars_def superscript_chars_def)

lemma special_not_isdigit: "c \<in> set special_chars \<Longrightarrow> c \<in> set s \<Longrightarrow> \<not> isdigit s"
  using special_not_digit[of c] by (auto simp: isdigit_def)

lemma special_upper: "c \<in> set special_chars \<Longrightarrow> upper_char c = c"
  by (drule special_cases) (elim disjE; simp add: upper_char_def)

lemma special_not_in_names:
  "c \<in> set special_chars \<Longrightarrow> n \<in> set SYMBOLIC_MONTHS \<union> set SYMBOLIC_DAYS \<Longrightarrow> c \<notin> set n"
  by (drule special_cases)
     (elim disjE; simp add: SYMBOLIC_MONTHS_def SYMBOLIC_DAYS_def; elim disjE; simp)

lemma special_not_symbolic:
  "c \<in> set special_chars \<Longrightarrow> c \<in> set s \<Longrightarrow>
     upper s \<notin> set SYMBOLIC_MONTHS \<and> upper s \<notin> set SYMBOLIC_DAYS"
proof -
  assume c: "c \<in> set special_chars" "c \<in> set s"
  then have "c \<in> set (upper s)" using special_upper[OF c(1)] by (force simp: upper_def)
  with special_not_in_names[OF c(1)] show ?thesis by blast
qed

lemma Field_int_special:
  "c \<in> set special_chars \<Longrightarrow> c \<in> set s \<Longrightarrow> Field_int f s = Inl (bad_value s)"
  using special_not_isdigit[of c s] special_not_symbolic[of c s]
  by (simp add: Field_int_def int'_def)

lemma Field_int_Inr_no_special:
  "Field_int f s = Inr v \<Longrightarrow> c \<in> set special_chars \<Longrightarrow> c \<notin> set s"
  using Field_int_special[of c s f] by auto

lemma int'_special: "c \<in> set special_chars \<Longrightarrow> c \<in> set s \<Longrightarrow> int' s m = Inl (bad_value s)"
  using special_not_isdigit[of c s] by (simp add: int'_def)

lemma update_all_has_Inl: "Inl e \<in> set rs \<Longrightarrow> \<exists>e'. update_all rs = Inl e'"
proof (induction rs rule: update_all.induct)
  case 1 then show ?case by simp
next
  case (2 e' rs) then show ?case by simp
next
  case (3 T rs) then show ?case by (auto split: sum.splits)
qed

lemma parse_term_fails:
  assumes "t \<in> set (split_on CHR '','' s)" "parse f t = Inl e"
  shows "\<exists>e'. parse f s = Inl e'"
proof (cases "CHR '','' \<in> set s")
  case True
  from assms have "Inl e \<in> set (map (parse f) (split_on CHR '','' s))" by force
  from update_all_has_Inl[OF this] True show ?thesis by (simp add: parse_comma)
next
  case False
  with assms show ?thesis by (auto simp: split_on_no_sep)
qed

lemma parse_hash_outside_dow:
  "f \<noteq> DOW \<Longrightarrow> CHR ''#'' \<in> set s \<Longrightarrow> \<exists>e. parse f s = Inl e"
proof (induction f s rule: parse.induct)
  case (1 self s)
  note IH1 = "1.IH"(1) and IH2 = "1.IH"(2) and nd = "1.prems"(1) and h = "1.prems"(2)
  have sp: "CHR ''#'' \<in> set special_chars" by (simp add: special_chars_def)
  from h have ns: "s \<noteq> ''*''" by auto
  show ?case
  proof (cases "CHR '','' \<in> set s")
    case True
    from split_on_covers[OF h, of "CHR '',''"] obtain t where
      t: "t \<in> set (split_on CHR '','' s)" "CHR ''#'' \<in> set t" by auto
    from IH1[OF ns True t(1) nd t(2)] obtain e where "parse self t = Inl e" ..
    from parse_term_fails[OF t(1) this] show ?thesis .
  next
    case nc: False
    from nd have nh: "\<not> (CHR ''#'' \<in> set s \<and> self = DOW)" by simp
    show ?thesis
    proof (cases "CHR ''/'' \<in> set s")
      case True
      from split1_covers[OF h, of "CHR ''/''"]
      have "CHR ''#'' \<in> set (fst (split1 CHR ''/'' s)) \<or> CHR ''#'' \<in> set (snd (split1 CHR ''/'' s))"
        by simp
      then show ?thesis
      proof
        assume "CHR ''#'' \<in> set (snd (split1 CHR ''/'' s))"
        from int'_special[OF sp this] show ?thesis
          by (simp add: parse_slash[OF nc nh True])
      next
        assume a: "CHR ''#'' \<in> set (fst (split1 CHR ''/'' s))"
        show ?thesis
        proof (cases "int' (snd (split1 CHR ''/'' s)) 1")
          case (Inl e)
          then show ?thesis by (simp add: parse_slash[OF nc nh True])
        next
          case (Inr step)
          from IH2[OF ns nc nh True Inr nd a] obtain e where
            "parse self (fst (split1 CHR ''/'' s)) = Inl e" ..
          with Inr show ?thesis by (simp add: parse_slash[OF nc nh True])
        qed
      qed
    next
      case nsl: False
      show ?thesis
      proof (cases "CHR ''-'' \<in> set s")
        case True
        from split1_covers[OF h, of "CHR ''-''"]
        have "CHR ''#'' \<in> set (fst (split1 CHR ''-'' s)) \<or> CHR ''#'' \<in> set (snd (split1 CHR ''-'' s))"
          by simp
        then show ?thesis
          using Field_int_special[OF sp, of _ self]
          by (auto simp: parse_range[OF nc nh nsl True] split: sum.splits)
      next
        case False
        from h have "s \<noteq> ''L''" "s \<noteq> ''l''" by auto
        with Field_int_special[OF sp h, of self] show ?thesis
          by (simp add: parse_atom[OF ns nc nh nsl False])
      qed
    qed
  qed
qed

text \<open>
  The malformed terms of claim C9, for a field kind and one comma-separated term of its text:
  a range whose two ends are values of the field with the end below the start; a \<open>#\<close> in a
  field other than day-of-week; a day-of-week term \<open>a#n\<close> whose \<open>n\<close> is a number below 1;
  the term \<open>L\<close> or \<open>l\<close> in a field other than day-of-month.
\<close>

inductive malformed :: "Field \<Rightarrow> string \<Rightarrow> bool" where
  range_reversed:
    "Field_int f a = Inr x \<Longrightarrow> Field_int f b = Inr y \<Longrightarrow> y < x \<Longrightarrow> malformed f (a @ ''-'' @ b)"
| hash_outside_dow:
    "f \<noteq> DOW \<Longrightarrow> CHR ''#'' \<in> set s \<Longrightarrow> malformed f s"
| nth_below_one:
    "CHR ''#'' \<notin> set a \<Longrightarrow> py_int n = Inr k \<Longrightarrow> k < 1 \<Longrightarrow> malformed DOW (a @ ''#'' @ n)"
| last_outside_day:
    "f \<noteq> DAY \<Longrightarrow> s = ''L'' \<or> s = ''l'' \<Longrightarrow> malformed f s"

lemma parse_range_reversed:
  assumes a: "Field_int f a = Inr x" and b: "Field_int f b = Inr y" and lt: "y < x"
  shows "parse f (a @ ''-'' @ b) = Inl (CronSimError ''Range end cannot be smaller than start'')"
proof -
  let ?s = "a @ ''-'' @ b"
  have na: "\<And>c. c \<in> set special_chars \<Longrightarrow> c \<notin> set a"
    and nb: "\<And>c. c \<in> set special_chars \<Longrightarrow> c \<notin> set b"
    using Field_int_Inr_no_special[OF a] Field_int_Inr_no_special[OF b] by auto
  have nc: "CHR '','' \<notin> set ?s" using na[of "CHR '',''"] nb[of "CHR '',''"]
    by (simp add: special_chars_def)
  have nh: "\<not> (CHR ''#'' \<in> set ?s \<and> f = DOW)" using na[of "CHR ''#''"] nb[of "CHR ''#''"]
    by (simp add: special_chars_def)
  have nsl: "CHR ''/'' \<notin> set ?s" using na[of "CHR ''/''"] nb[of "CHR ''/''"]
    by (simp add: special_chars_def)
  have d: "CHR ''-'' \<in> set ?s" by simp
  have "CHR ''-'' \<notin> set a" using na[of "CHR ''-''"] by (simp add: special_chars_def)
  then have sp: "split1 CHR ''-'' ?s = (a, b)" using split1_append[of "CHR ''-''" a b] by simp
  show ?thesis
    unfolding parse_range[OF nc nh nsl d] sp using a b lt by simp
qed

lemma int'_below_min: "py_int n = Inr k \<Longrightarrow> k < m \<Longrightarrow> int' n m = Inl (bad_value n)"
  by (simp add: int'_def)

lemma parse_nth_below_one:
  assumes "CHR ''#'' \<notin> set a" "py_int n = Inr k" "k < 1" "CHR '','' \<notin> set (a @ ''#'' @ n)"
  shows "parse DOW (a @ ''#'' @ n) = Inl (bad_value n)"
proof -
  have h: "CHR ''#'' \<in> set (a @ ''#'' @ n)" by simp
  have sp: "split1 CHR ''#'' (a @ ''#'' @ n) = (a, n)"
    using split1_append[OF assms(1), of n] by simp
  show ?thesis
    unfolding parse_hash[OF assms(4) h] sp using int'_below_min[OF assms(2,3)] by simp
qed

lemma parse_last_outside_day:
  "f \<noteq> DAY \<Longrightarrow> parse f ''L'' = Inl (bad_value ''L'') \<and> parse f ''l'' = Inl (bad_value ''l'')"
  by (cases f; simp; code_simp)

lemma malformed_rejected:
  assumes "malformed f s" "CHR '','' \<notin> set s"
  shows "\<exists>e. parse f s = Inl e"
  using assms
proof cases
  case (range_reversed a x b y)
  with parse_range_reversed show ?thesis by blast
next
  case hash_outside_dow
  with parse_hash_outside_dow show ?thesis by blast
next
  case (nth_below_one a n k)
  with parse_nth_below_one assms(2) show ?thesis by blast
next
  case last_outside_day
  with parse_last_outside_day show ?thesis by blast
qed

text \<open>
  C9. The constructor raises an error, so that no instance exists, for: an expression with 4 or
  7 whitespace-separated fields; and an expression of 5 or 6 fields in which a comma-separated
  term of some field is malformed: a range whose end is smaller than its start, a \<open>#\<close> in a
  field other than day-of-week, a day-of-week \<open>#n\<close> with \<open>n < 1\<close>, or \<open>L\<close> in a field other
  than day-of-month. Parsing the reversed range itself raises "Range end cannot be smaller than
  start", and the other three raise "Bad value".
\<close>

theorem C9_malformed_input_rejected:
  "(length (split_ws expr) = 4 \<or> length (split_ws expr) = 7 \<longrightarrow>
      CronSim_init expr t = Inl (CronSimError ''Wrong number of fields''))
   \<and> (length (fields_of expr) = 6 \<and> i < 6 \<and>
        s \<in> set (split_on CHR '','' (fields_of expr ! i)) \<and> malformed (FIELDS ! i) s \<longrightarrow>
        (\<exists>e. CronSim_init expr t = Inl e))
   \<and> (Field_int f a = Inr x \<and> Field_int f b = Inr y \<and> y < x \<longrightarrow>
        parse f (a @ ''-'' @ b) = Inl (CronSimError ''Range end cannot be smaller than start''))
   \<and> (CHR ''#'' \<notin> set w \<and> CHR '','' \<notin> set (w @ ''#'' @ n) \<and> py_int n = Inr k \<and> k < 1 \<longrightarrow>
        parse DOW (w @ ''#'' @ n) = Inl (bad_value n))
   \<and> (g \<noteq> DAY \<longrightarrow> parse g ''L'' = Inl (bad_value ''L'') \<and> parse g ''l'' = Inl (bad_value ''l''))"
proof (intro conjI impI)
  assume "length (split_ws expr) = 4 \<or> length (split_ws expr) = 7"
  then have "length (fields_of expr) \<noteq> 6" by (auto simp: fields_of_length)
  then show "CronSim_init expr t = Inl (CronSimError ''Wrong number of fields'')"
    by (rule CronSim_init_wrong_count)
next
  assume h: "length (fields_of expr) = 6 \<and> i < 6 \<and>
        s \<in> set (split_on CHR '','' (fields_of expr ! i)) \<and> malformed (FIELDS ! i) s"
  then have "CHR '','' \<notin> set s" by (auto dest: split_on_pieces_no_sep)
  with h malformed_rejected obtain e where "parse (FIELDS ! i) s = Inl e" by blast
  with h parse_term_fails obtain e' where "parse (FIELDS ! i) (fields_of expr ! i) = Inl e'"
    by blast
  with h CronSim_init_field_fails show "\<exists>e. CronSim_init expr t = Inl e" by blast
next
  assume "Field_int f a = Inr x \<and> Field_int f b = Inr y \<and> y < x"
  then show "parse f (a @ ''-'' @ b)
      = Inl (CronSimError ''Range end cannot be smaller than start'')"
    using parse_range_reversed by blast
next
  assume "CHR ''#'' \<notin> set w \<and> CHR '','' \<notin> set (w @ ''#'' @ n) \<and> py_int n = Inr k \<and> k < 1"
  then show "parse DOW (w @ ''#'' @ n) = Inl (bad_value n)"
    using parse_nth_below_one by blast
next
  assume "g \<noteq> DAY"
  then show "parse g ''L'' = Inl (bad_value ''L'')" "parse g ''l'' = Inl (bad_value ''l'')"
    using parse_last_outside_day by blast+
qed

theorem C9_malformed_input_rejected_witness:
  "length (split_ws ''* * * * * * *'') = 7
   \<and> CronSim_init ''* * * * * * *'' NOW = Inl (CronSimError ''Wrong number of fields'')
   \<and> length (fields_of ''* * * * 1#0'') = 6
   \<and> ''1#0'' \<in> set (split_on CHR '','' (fields_of ''* * * * 1#0'' ! 4))
   \<and> malformed (FIELDS ! 4) ''1#0''
   \<and> (\<exists>e. CronSim_init ''* * * * 1#0'' NOW = Inl e)
   \<and> Field_int MINUTE ''5'' = Inr 5 \<and> Field_int MINUTE ''1'' = Inr 1
   \<and> parse MINUTE (''5'' @ ''-'' @ ''1'')
        = Inl (CronSimError ''Range end cannot be smaller than start'')
   \<and> parse DOW (''1'' @ ''#'' @ ''0'') = Inl (bad_value ''0'')
   \<and> parse MONTH ''L'' = Inl (bad_value ''L'')"
proof -
  have l7: "length (split_ws ''* * * * * * *'') = 7" by code_simp
  have l6: "length (fields_of ''* * * * 1#0'') = 6" by code_simp
  have mem: "''1#0'' \<in> set (split_on CHR '','' (fields_of ''* * * * 1#0'' ! 4))" by code_simp
  have pi: "py_int ''0'' = Inr 0" by code_simp
  have f5: "Field_int MINUTE ''5'' = Inr 5" and f1: "Field_int MINUTE ''1'' = Inr 1"
    by code_simp+
  have "malformed DOW (''1'' @ ''#'' @ ''0'')"
    by (rule malformed.nth_below_one[OF _ pi]) simp_all
  then have mal: "malformed (FIELDS ! 4) ''1#0''" by (simp add: FIELDS_def)
  note th = C9_malformed_input_rejected[where expr = "''* * * * * * *''" and t = NOW]
  note th2 = C9_malformed_input_rejected[where expr = "''* * * * 1#0''" and i = 4
      and s = "''1#0''" and t = NOW and f = MINUTE and a = "''5''" and x = 5 and b = "''1''"
      and y = 1 and w = "''1''" and n = "''0''" and k = 0 and g = MONTH]
  from th l7 have a: "CronSim_init ''* * * * * * *'' NOW
      = Inl (CronSimError ''Wrong number of fields'')" by blast
  have lt: "(4::nat) < 6" by simp
  from th2 l6 lt mem mal have b: "\<exists>e. CronSim_init ''* * * * 1#0'' NOW = Inl e" by blast
  from th2 f5 f1 have c: "parse MINUTE (''5'' @ ''-'' @ ''1'')
        = Inl (CronSimError ''Range end cannot be smaller than start'')" by simp
  from th2 pi have d: "parse DOW (''1'' @ ''#'' @ ''0'') = Inl (bad_value ''0'')" by simp
  from th2 have e: "parse MONTH ''L'' = Inl (bad_value ''L'')" by simp
  from l7 a l6 mem mal b f5 f1 c d e show ?thesis by blast
qed

section \<open>The step construct\<close>

lemma set_every_nth:
  "0 < n \<Longrightarrow> set (every_nth n xs) = {xs ! i | i. i < length xs \<and> n dvd i}"
proof (induction n xs rule: every_nth.induct)
  case (1 step)
  then show ?case by simp
next
  case (2 step x xs)
  let ?d = "drop (step - 1) xs"
  from 2 have IH: "set (every_nth step ?d) = {?d ! j | j. j < length ?d \<and> step dvd j}"
    by simp
  have pos: "0 < step" by fact
  show ?case
  proof (intro set_eqI iffI)
    fix y assume "y \<in> set (every_nth step (x # xs))"
    then have "y = x \<or> y \<in> set (every_nth step ?d)" by simp
    then show "y \<in> {(x # xs) ! i | i. i < length (x # xs) \<and> step dvd i}"
    proof
      assume "y = x"
      then have "y = (x # xs) ! 0 \<and> 0 < length (x # xs) \<and> step dvd 0" by simp
      then show ?thesis by blast
    next
      assume "y \<in> set (every_nth step ?d)"
      with IH obtain j where j: "y = ?d ! j" "j < length ?d" "step dvd j" by auto
      from j(2) have b: "step - 1 + j < length xs" by simp
      with j(1) have "y = xs ! (step - 1 + j)" by simp
      with pos have "y = (x # xs) ! (step + j)" by (simp add: nth_Cons')
      moreover from b pos have "step + j < length (x # xs)" by simp
      moreover from j(3) have "step dvd step + j" by simp
      ultimately show ?thesis by blast
    qed
  next
    fix y assume "y \<in> {(x # xs) ! i | i. i < length (x # xs) \<and> step dvd i}"
    then obtain i where i: "y = (x # xs) ! i" "i < length (x # xs)" "step dvd i" by auto
    show "y \<in> set (every_nth step (x # xs))"
    proof (cases "i = 0")
      case True
      with i show ?thesis by simp
    next
      case False
      with i(3) pos have "step \<le> i" by (auto dest: dvd_imp_le)
      then obtain j where ij: "i = step + j" by (metis le_Suc_ex)
      with i(3) have dj: "step dvd j" by (simp add: dvd_add_right_iff)
      from ij i(2) pos have jl: "j < length ?d" by simp
      from ij i(1) pos jl have "y = ?d ! j" by (simp add: nth_Cons')
      with IH dj jl have "y \<in> set (every_nth step ?d)" by blast
      then show ?thesis by simp
    qed
  qed
qed

lemma upto_nth: "i < nat (b - a + 1) \<Longrightarrow> [a..b] ! i = a + int i"
proof (induction i arbitrary: a)
  case 0
  then show ?case by (simp add: upto.simps)
next
  case (Suc i)
  from Suc.prems have "a \<le> b" by simp
  then have "[a..b] = a # [a + 1..b]" by (simp add: upto.simps)
  with Suc.IH[of "a + 1"] Suc.prems show ?case by simp
qed

lemma set_every_nth_upto:
  assumes "0 < n"
  shows "set (every_nth n [a..b]) = {v. \<exists>k\<ge>0. v = a + k * int n \<and> v \<le> b}"
proof (intro set_eqI iffI)
  fix v assume "v \<in> set (every_nth n [a..b])"
  with set_every_nth[OF assms, of "[a..b]"] obtain i where
    i: "v = [a..b] ! i" "i < length [a..b]" "n dvd i" by auto
  from i(2) have "i < nat (b - a + 1)" by simp
  from upto_nth[OF this] i(1) have v: "v = a + int i" by simp
  from i(3) obtain q where "i = n * q" by (auto simp: dvd_def)
  with v have "v = a + int q * int n" by simp
  moreover from v \<open>i < nat (b - a + 1)\<close> have "v \<le> b" by linarith
  ultimately show "v \<in> {v. \<exists>k\<ge>0. v = a + k * int n \<and> v \<le> b}"
    by (intro CollectI exI[of _ "int q"]) simp
next
  fix v assume "v \<in> {v. \<exists>k\<ge>0. v = a + k * int n \<and> v \<le> b}"
  then obtain k where k: "0 \<le> k" "v = a + k * int n" "v \<le> b" by auto
  let ?i = "nat k * n"
  from k assms have "int ?i = k * int n" by simp
  with k have vi: "v = a + int ?i" by simp
  with k(3) have lt: "?i < nat (b - a + 1)" by linarith
  with upto_nth[OF lt] vi have "v = [a..b] ! ?i" by simp
  moreover from lt have "?i < length [a..b]" by simp
  moreover have "n dvd ?i" by simp
  ultimately show "v \<in> set (every_nth n [a..b])"
    unfolding set_every_nth[OF assms] by blast
qed

lemma parse_no_Tuple:
  "parse f s = Inr S \<Longrightarrow> \<not> (f = DOW \<and> CHR ''#'' \<in> set s) \<Longrightarrow> \<forall>x \<in> S. is_Num x"
proof (induction f s arbitrary: S rule: parse.induct)
  case (1 self s)
  note IH1 = "1.IH"(1) and IH2 = "1.IH"(2) and res = "1.prems"(1) and nh' = "1.prems"(2)
  from nh' have nh: "\<not> (CHR ''#'' \<in> set s \<and> self = DOW)" by blast
  show ?case
  proof (cases "s = ''*''")
    case True
    with res have "S = RANGES self" by (simp add: parse_star)
    then show ?thesis by (cases self) auto
  next
    case ns: False
    show ?thesis
    proof (cases "CHR '','' \<in> set s")
      case True
      with res have u: "update_all (map (parse self) (split_on CHR '','' s)) = Inr S"
        by (simp add: parse_comma)
      show ?thesis
      proof
        fix x assume "x \<in> S"
        from update_all_Inr_union[OF u this] obtain T' t' where
          t: "t' \<in> set (split_on CHR '','' s)" "parse self t' = Inr T'" "x \<in> T'"
          by (auto simp: image_iff) metis
        from split_on_set[OF t(1)] nh' have "\<not> (self = DOW \<and> CHR ''#'' \<in> set t')" by blast
        from IH1[OF ns True t(1) t(2) this] t(3) show "is_Num x" by blast
      qed
    next
      case nc: False
      show ?thesis
      proof (cases "CHR ''/'' \<in> set s")
        case True
        from res have "\<exists>X. S = Num ` X"
          by (auto simp: parse_slash[OF nc nh True] split: sum.splits if_splits)
        then show ?thesis by auto
      next
        case nsl: False
        show ?thesis
        proof (cases "CHR ''-'' \<in> set s")
          case True
          from res have "\<exists>X. S = Num ` X"
            by (auto simp: parse_range[OF nc nh nsl True] split: sum.splits if_splits)
          then show ?thesis by auto
        next
          case False
          from res parse_atom[OF ns nc nh nsl False] show ?thesis
            by (auto split: if_splits sum.splits)
        qed
      qed
    qed
  qed
qed

text \<open>
  The step construct in the words of the specification, for the parsed term \<open>S\<close> and the
  step: the last-day sentinel alone passes through; a single value is a start, expanded up to
  the field's maximum, of which every step-th value from the start is kept; of several values,
  sorted, those at the indices 0, step, 2 step, ... are kept.
\<close>

definition step_spec :: "Field \<Rightarrow> item set \<Rightarrow> int \<Rightarrow> item set" where
  "step_spec f S step =
     (if S = {Num LAST} then S
      else if card S = 1 then
        Num ` {v. \<exists>k\<ge>0. v = int_of (the_elem S) + k * step \<and> v \<le> Max (int_of ` RANGES f)}
      else Num ` {sorted_list_of_set (int_of ` S) ! i | i. i < card S \<and> nat step dvd i})"

lemma step_branch_spec:
  assumes fin: "finite T" and nums: "\<forall>x \<in> T. is_Num x" and pos: "1 \<le> step"
    and items: "items = sorted_list_of_set (int_of ` T)"
  shows "(if items = [LAST] then Num ` set items
          else if length items = 1
          then Num ` set (every_nth (nat step) [hd items .. Max (int_of ` RANGES f)])
          else Num ` set (every_nth (nat step) items)) = step_spec f T step"
proof -
  have NumT: "Num ` int_of ` T = T"
  proof -
    have "\<And>x. x \<in> T \<Longrightarrow> Num (int_of x) = x" using nums by (case_tac x) auto
    then show ?thesis by (force simp: image_iff)
  qed
  have inj: "inj_on int_of T"
  proof (rule inj_onI)
    fix x y assume "x \<in> T" "y \<in> T" "int_of x = int_of y"
    with nums show "x = y" by (cases x; cases y) auto
  qed
  have set_items: "set items = int_of ` T" using fin items by simp
  have len: "length items = card T"
    using fin items inj by (simp add: card_image)
  have n0: "0 < nat step" using pos by simp
  have last_iff: "items = [LAST] \<longleftrightarrow> T = {Num LAST}"
  proof
    assume "items = [LAST]"
    with set_items have "int_of ` T = {LAST}" by simp
    with NumT show "T = {Num LAST}" by (metis image_empty image_insert)
  next
    assume "T = {Num LAST}"
    with items show "items = [LAST]" by simp
  qed
  show ?thesis
  proof (cases "items = [LAST]")
    case True
    with last_iff show ?thesis by (simp add: step_spec_def)
  next
    case nl: False
    show ?thesis
    proof (cases "length items = 1")
      case True
      then obtain v where v: "items = [v]" by (cases items) auto
      with set_items NumT have T: "T = {Num v}" by (metis image_empty image_insert list.simps(15) set_empty2 empty_set)
      have "set (every_nth (nat step) [v .. Max (int_of ` RANGES f)])
              = {u. \<exists>k\<ge>0. u = v + k * step \<and> u \<le> Max (int_of ` RANGES f)}"
        using set_every_nth_upto[OF n0, of v] pos by simp
      with nl True v T last_iff len show ?thesis by (simp add: step_spec_def)
    next
      case False
      have "set (every_nth (nat step) items)
              = {items ! i | i. i < card T \<and> nat step dvd i}"
        using set_every_nth[OF n0, of items] len by simp
      with nl False last_iff len items show ?thesis by (simp add: step_spec_def)
    qed
  qed
qed

text \<open>
  C7. A field text \<open>term/step\<close> (no comma in it, and no \<open>#\<close> when the field is day-of-week)
  is parsed by parsing \<open>step\<close> as an integer of at least 1 and then \<open>term\<close>; an error of
  either is the error of the whole, and otherwise the result is the set the specification
  describes: the last-day sentinel alone unchanged, a single value expanded up to the field's
  maximum and thinned to every step-th value, several values sorted and thinned to every
  step-th element. For the minute field \<open>*/15\<close>, \<open>5/15\<close> and \<open>0-10/2\<close> give
  \<open>{0,15,30,45}\<close>, \<open>{5,20,35,50}\<close> and \<open>{0,2,4,6,8,10}\<close>.
\<close>

theorem C7_step_construct:
  "(CHR ''/'' \<notin> set tm \<and> CHR '','' \<notin> set (tm @ ''/'' @ st)
      \<and> \<not> (f = DOW \<and> CHR ''#'' \<in> set (tm @ ''/'' @ st)) \<longrightarrow>
      parse f (tm @ ''/'' @ st) =
        (case int' st 1 of
           Inl e \<Rightarrow> Inl e
         | Inr step \<Rightarrow>
             (case parse f tm of
                Inl e \<Rightarrow> Inl e
              | Inr S \<Rightarrow> Inr (step_spec f S step)))
      \<and> (\<forall>step. int' st 1 = Inr step \<longrightarrow> 1 \<le> step))
   \<and> parse MINUTE ''*/15'' = Inr {Num 0, Num 15, Num 30, Num 45}
   \<and> parse MINUTE ''5/15'' = Inr {Num 5, Num 20, Num 35, Num 50}
   \<and> parse MINUTE ''0-10/2'' = Inr {Num 0, Num 2, Num 4, Num 6, Num 8, Num 10}"
proof (intro conjI impI allI)
  assume h: "CHR ''/'' \<notin> set tm \<and> CHR '','' \<notin> set (tm @ ''/'' @ st)
      \<and> \<not> (f = DOW \<and> CHR ''#'' \<in> set (tm @ ''/'' @ st))"
  let ?s = "tm @ ''/'' @ st"
  from h have nc: "CHR '','' \<notin> set ?s" and nh: "\<not> (CHR ''#'' \<in> set ?s \<and> f = DOW)"
    and sl: "CHR ''/'' \<in> set ?s" by auto
  from h have sp: "split1 CHR ''/'' ?s = (tm, st)"
    using split1_append[of "CHR ''/''" tm st] by simp
  show "parse f ?s =
        (case int' st 1 of
           Inl e \<Rightarrow> Inl e
         | Inr step \<Rightarrow>
             (case parse f tm of
                Inl e \<Rightarrow> Inl e
              | Inr S \<Rightarrow> Inr (step_spec f S step)))"
  proof (cases "int' st 1")
    case (Inl e)
    then show ?thesis unfolding parse_slash[OF nc nh sl] sp by simp
  next
    case (Inr step)
    from int'_bounds[OF Inr] have pos: "1 \<le> step" by simp
    show ?thesis
    proof (cases "parse f tm")
      case (Inl e)
      with Inr show ?thesis unfolding parse_slash[OF nc nh sl] sp by simp
    next
      case S: (Inr S)
      from parse_sound[OF S] finite_field_items have fin: "finite S"
        by (auto intro: finite_subset)
      from h have "\<not> (f = DOW \<and> CHR ''#'' \<in> set tm)" by auto
      from parse_no_Tuple[OF S this] have nums: "\<forall>x \<in> S. is_Num x" .
      then have so: "py_sorted S = Inr (sorted_list_of_set (int_of ` S))"
        by (simp add: py_sorted_def)
      have lift: "\<And>a b (x::item set) y z.
          (if a then Inr x else if b then Inr y else Inr z)
            = (Inr (if a then x else if b then y else z) :: error + item set)"
        by simp
      show ?thesis
        unfolding parse_slash[OF nc nh sl] sp
        by (simp only: Inr S so sum.case fst_conv snd_conv lift
              step_branch_spec[OF fin nums pos refl, of f])

    qed
  qed
next
  fix step assume "int' st 1 = Inr step"
  from int'_bounds[OF this] show "1 \<le> step" by simp
next
  show "parse MINUTE ''*/15'' = Inr {Num 0, Num 15, Num 30, Num 45}" by code_simp
next
  show "parse MINUTE ''5/15'' = Inr {Num 5, Num 20, Num 35, Num 50}" by code_simp
next
  show "parse MINUTE ''0-10/2'' = Inr {Num 0, Num 2, Num 4, Num 6, Num 8, Num 10}" by code_simp
qed

theorem C7_step_construct_witness:
  "CHR ''/'' \<notin> set ''5'' \<and> CHR '','' \<notin> set (''5'' @ ''/'' @ ''15'')
   \<and> int' ''15'' 1 = Inr 15 \<and> parse MINUTE ''5'' = Inr {Num 5}
   \<and> parse MINUTE (''5'' @ ''/'' @ ''15'') = Inr (step_spec MINUTE {Num 5} 15)
   \<and> step_spec MINUTE {Num 5} 15 = {Num 5, Num 20, Num 35, Num 50}
   \<and> (1::int) \<le> 15"
proof -
  have a: "CHR ''/'' \<notin> set ''5''" "CHR '','' \<notin> set (''5'' @ ''/'' @ ''15'')"
    "\<not> (MINUTE = DOW \<and> CHR ''#'' \<in> set (''5'' @ ''/'' @ ''15''))" by simp_all
  have i: "int' ''15'' 1 = Inr 15" by code_simp
  have p: "parse MINUTE ''5'' = Inr {Num 5}" by code_simp
  note th = C7_step_construct[where tm = "''5''" and st = "''15''" and f = MINUTE]
  from th a have "parse MINUTE (''5'' @ ''/'' @ ''15'') =
        (case int' ''15'' 1 of
           Inl e \<Rightarrow> Inl e
         | Inr step \<Rightarrow>
             (case parse MINUTE ''5'' of
                Inl e \<Rightarrow> Inl e
              | Inr S \<Rightarrow> Inr (step_spec MINUTE S step)))" by blast
  with i p have e: "parse MINUTE (''5'' @ ''/'' @ ''15'') = Inr (step_spec MINUTE {Num 5} 15)"
    by simp
  from th have "parse MINUTE ''5/15'' = Inr {Num 5, Num 20, Num 35, Num 50}" by blast
  with e have s: "step_spec MINUTE {Num 5} 15 = {Num 5, Num 20, Num 35, Num 50}" by simp
  from a i p e s show ?thesis by simp
qed

section \<open>Calendar arithmetic\<close>

lemma month_cases:
  "1 \<le> m \<Longrightarrow> m \<le> (12::int) \<Longrightarrow>
     m = 1 \<or> m = 2 \<or> m = 3 \<or> m = 4 \<or> m = 5 \<or> m = 6
     \<or> m = 7 \<or> m = 8 \<or> m = 9 \<or> m = 10 \<or> m = 11 \<or> m = 12"
  by arith

lemma days_in_month_bounds:
  "1 \<le> m \<Longrightarrow> m \<le> 12 \<Longrightarrow> 28 \<le> days_in_month y m \<and> days_in_month y m \<le> 31"
  by (drule (1) month_cases) (elim disjE; simp add: days_in_month_def)

lemma days_in_february: "days_in_month y 2 \<le> 29"
  by (simp add: days_in_month_def)

lemma days_before_next_month:
  "1 \<le> m \<Longrightarrow> m < 12 \<Longrightarrow>
     days_before_month y (m + 1) = days_before_month y m + days_in_month y m"
proof -
  assume a: "1 \<le> m" "m < 12"
  then have "m \<le> 12" by simp
  from month_cases[OF a(1) this] a(2) show ?thesis
    by (elim disjE; simp add: days_before_month_def days_in_month_def)
qed

lemma days_before_december: "days_before_month y 12 + 31 = (if is_leap y then 366 else 365)"
  by (simp add: days_before_month_def)

lemma div_step:
  assumes "0 < k"
  shows "(y::int) div k = (y - 1) div k + (if y mod k = 0 then 1 else 0)"
proof (cases "y mod k = 0")
  case True
  then obtain q where q: "y = k * q" by (auto simp: mod_eq_0_iff_dvd)
  have "y - 1 = k * (q - 1) + (k - 1)" using q by (simp add: algebra_simps)
  from int_div_pos_eq[OF this] assms have "(y - 1) div k = q - 1" by simp
  moreover from q assms have "y div k = q" by simp
  ultimately show ?thesis using True by simp
next
  case False
  let ?q = "y div k" and ?r = "y mod k"
  from assms have r: "0 \<le> ?r" "?r < k" by simp_all
  with False have r1: "0 \<le> ?r - 1" "?r - 1 < k" by simp_all
  have "y - 1 = k * ?q + (?r - 1)" by (simp add: algebra_simps)
  from int_div_pos_eq[OF this r1] False show ?thesis by simp
qed

lemma mod_100_4: "(y::int) mod 100 = 0 \<Longrightarrow> y mod 4 = 0"
  using mod_mod_cancel[of 4 100 y] by simp

lemma mod_400_100: "(y::int) mod 400 = 0 \<Longrightarrow> y mod 100 = 0"
  using mod_mod_cancel[of 100 400 y] by simp

lemma days_before_next_year:
  "days_before_year (y + 1) = days_before_year y + (if is_leap y then 366 else 365)"
proof -
  define a where "a = (y - 1) div 4"
  define b where "b = (y - 1) div 100"
  define c where "c = (y - 1) div 400"
  have A: "y div 4 = a + (if y mod 4 = 0 then 1 else 0)"
    unfolding a_def by (rule div_step) simp
  have B: "y div 100 = b + (if y mod 100 = 0 then 1 else 0)"
    unfolding b_def by (rule div_step) simp
  have C: "y div 400 = c + (if y mod 400 = 0 then 1 else 0)"
    unfolding c_def by (rule div_step) simp
  have L: "days_before_year (y + 1) = y * 365 + y div 4 - y div 100 + y div 400"
    by (simp add: days_before_year_def)
  have R: "days_before_year y = (y - 1) * 365 + a - b + c"
    by (simp add: days_before_year_def a_def b_def c_def)
  consider (n4) "y mod 4 \<noteq> 0" | (n100) "y mod 4 = 0" "y mod 100 \<noteq> 0"
    | (n400) "y mod 100 = 0" "y mod 400 \<noteq> 0" | (d400) "y mod 400 = 0"
    by fastforce
  then show ?thesis
  proof cases
    case n4
    with mod_100_4[of y] mod_400_100[of y] have "y mod 100 \<noteq> 0" "y mod 400 \<noteq> 0" by auto
    with n4 show ?thesis unfolding L R A B C is_leap_def by (simp add: algebra_simps)
  next
    case n100
    with mod_400_100[of y] have "y mod 400 \<noteq> 0" by auto
    with n100 show ?thesis unfolding L R A B C is_leap_def by (simp add: algebra_simps)
  next
    case n400
    with mod_100_4[of y] have "y mod 4 = 0" by auto
    with n400 show ?thesis unfolding L R A B C is_leap_def by (simp add: algebra_simps)
  next
    case d400
    with mod_400_100[of y] have "y mod 100 = 0" by auto
    with mod_100_4[of y] have "y mod 4 = 0" by auto
    with d400 \<open>y mod 100 = 0\<close> show ?thesis
      unfolding L R A B C is_leap_def by (simp add: algebra_simps)
  qed
qed

lemma days_before_year_mono: "y \<le> y' \<Longrightarrow> days_before_year y \<le> days_before_year y'"
proof (induction y' rule: int_ge_induct)
  case base
  show ?case by simp
next
  case (step i)
  with days_before_next_year[of i] show ?case by (simp split: if_splits)
qed

lemma toordinal_tomorrow:
  assumes "valid_date d"
  shows "toordinal (tomorrow d) = toordinal d + 1"
proof (cases "day d < days_in_month (year d) (month d)")
  case True
  then show ?thesis by (simp add: tomorrow_def toordinal_def)
next
  case last: False
  with assms have dd: "day d = days_in_month (year d) (month d)"
    by (simp add: valid_date_def)
  show ?thesis
  proof (cases "month d < 12")
    case True
    with assms last dd days_before_next_month[of "month d" "year d"] show ?thesis
      by (simp add: tomorrow_def toordinal_def valid_date_def)
  next
    case False
    with assms have m: "month d = 12" by (simp add: valid_date_def)
    with dd have "day d = 31" by (simp add: days_in_month_def)
    with m last days_before_next_year[of "year d"] days_before_december[of "year d"]
    show ?thesis
      by (simp add: tomorrow_def toordinal_def days_before_month_def)
  qed
qed

lemma day_of_year_bound:
  assumes "valid_date d"
  shows "1 \<le> days_before_month (year d) (month d) + day d"
    and "days_before_month (year d) (month d) + day d \<le> (if is_leap (year d) then 366 else 365)"
proof -
  from assms have m: "1 \<le> month d" "month d \<le> 12"
    and dd: "1 \<le> day d" "day d \<le> days_in_month (year d) (month d)"
    by (simp_all add: valid_date_def)
  from month_cases[OF m] dd show "1 \<le> days_before_month (year d) (month d) + day d"
    by (elim disjE; simp add: days_before_month_def)
  from month_cases[OF m] dd show "days_before_month (year d) (month d) + day d
      \<le> (if is_leap (year d) then 366 else 365)"
    by (elim disjE; simp add: days_before_month_def days_in_month_def split: if_splits)
qed

lemma toordinal_bounds:
  assumes "valid_date d"
  shows "1 \<le> toordinal d \<and> toordinal d \<le> MAXORDINAL"
proof -
  from assms have y: "1 \<le> year d" "year d \<le> 9999" by (simp_all add: valid_date_def MAXYEAR_def)
  from days_before_year_mono[OF y(1)] have "0 \<le> days_before_year (year d)"
    by (simp add: days_before_year_def)
  with day_of_year_bound(1)[OF assms] have lo: "1 \<le> toordinal d" by (simp add: toordinal_def)
  have "toordinal d \<le> days_before_year (year d + 1)"
    using day_of_year_bound(2)[OF assms] days_before_next_year[of "year d"]
    by (simp add: toordinal_def split: if_splits)
  also have "\<dots> \<le> days_before_year 10000" using y by (intro days_before_year_mono) simp
  also have "\<dots> = MAXORDINAL" by (simp add: days_before_year_def MAXORDINAL_def)
  finally show ?thesis using lo by simp
qed

lemma last_day_ordinal:
  "year d = 9999 \<Longrightarrow> month d = 12 \<Longrightarrow> day d = 31 \<Longrightarrow> toordinal d = MAXORDINAL"
  by (simp add: toordinal_def days_before_year_def days_before_month_def is_leap_def
        MAXORDINAL_def)

lemma valid_tomorrow:
  assumes "valid_date d" "toordinal d < MAXORDINAL"
  shows "valid_date (tomorrow d)"
proof (cases "day d < days_in_month (year d) (month d)")
  case True
  with assms(1) show ?thesis by (simp add: tomorrow_def valid_date_def)
next
  case last: False
  show ?thesis
  proof (cases "month d < 12")
    case True
    with assms(1) last days_in_month_bounds[of "month d + 1" "year d"] show ?thesis
      by (simp add: tomorrow_def valid_date_def)
  next
    case False
    with assms(1) have m: "month d = 12" by (simp add: valid_date_def)
    with assms(1) last have dd: "day d = 31" by (simp add: valid_date_def days_in_month_def)
    from assms(2) last_day_ordinal[OF _ m dd] have "year d \<noteq> 9999" by auto
    with assms(1) m last show ?thesis
      by (simp add: tomorrow_def valid_date_def MAXYEAR_def days_in_month_def)
  qed
qed

lemma date_add_day_Inr:
  "date_add_day d = Inr d' \<Longrightarrow> valid_date d \<Longrightarrow>
     valid_date d' \<and> toordinal d' = toordinal d + 1"
  by (auto simp: date_add_day_def toordinal_tomorrow valid_tomorrow split: if_splits)

lemma date_add_day_Inl: "date_add_day d = Inl e \<Longrightarrow> e = OverflowError"
  by (auto simp: date_add_day_def split: if_splits)

lemma date_add_days_Inr:
  "date_add_days k d = Inr d' \<Longrightarrow> valid_date d \<Longrightarrow>
     valid_date d' \<and> toordinal d' = toordinal d + int k"
proof (induction k arbitrary: d)
  case 0
  then show ?case by simp
next
  case (Suc k)
  from Suc.prems(1) obtain d1 where d1: "date_add_day d = Inr d1" "date_add_days k d1 = Inr d'"
    by (auto split: sum.splits)
  from date_add_day_Inr[OF d1(1) Suc.prems(2)] Suc.IH[OF d1(2)] show ?case by simp
qed

lemma date_add_days_Inl: "date_add_days k d = Inl e \<Longrightarrow> e = OverflowError"
  by (induction k arbitrary: d) (auto split: sum.splits dest: date_add_day_Inl)

section \<open>Instants\<close>

lemma toordinal_date_of [simp]: "toordinal (date_of t) = toordinal t"
  by (simp add: toordinal_def date_of_def)

lemma valid_date_date_of [simp]: "valid_date (date_of t) = valid_date t"
  by (simp add: valid_date_def date_of_def)

lemma div_bounds:
  fixes r :: int
  assumes "0 \<le> r" "r < q * k" "0 < k"
  shows "0 \<le> r div k \<and> r div k < q"
proof -
  from assms have "0 \<le> r div k" by (simp add: pos_imp_zdiv_nonneg_iff)
  moreover have "r div k < q"
  proof (rule ccontr)
    assume "\<not> r div k < q"
    then have "q \<le> r div k" by simp
    with assms(3) have "q * k \<le> (r div k) * k" by (simp add: mult_right_mono)
    also have "\<dots> \<le> r"
    proof -
      have "r = r div k * k + r mod k" by simp
      moreover have "0 \<le> r mod k" using assms(3) by simp
      ultimately show ?thesis by linarith
    qed
    finally show False using assms(2) by simp
  qed
  ultimately show ?thesis by simp
qed

lemma time_split:
  fixes total :: int
  shows "(total mod 86400) div 3600 * 3600 + (total mod 3600) div 60 * 60 + total mod 60
           = total mod 86400"
proof -
  define r where "r = total mod 86400"
  have a: "total mod 3600 = r mod 3600"
    using mod_mod_cancel[of 3600 86400 total] by (simp add: r_def)
  have b: "total mod 60 = (r mod 3600) mod 60"
    using mod_mod_cancel[of 60 3600 total] a by simp
  have c: "r = r div 3600 * 3600 + r mod 3600" by simp
  have d: "r mod 3600 = (r mod 3600) div 60 * 60 + (r mod 3600) mod 60" by simp
  show ?thesis unfolding r_def[symmetric] a b using c d by linarith
qed

lemma datetime_add_Inl: "datetime_add t n = Inl e \<Longrightarrow> e = OverflowError"
  by (auto simp: datetime_add_def Let_def split: sum.splits dest: date_add_days_Inl)

lemma datetime_add_Inr:
  assumes add: "datetime_add t n = Inr t'" and v: "valid_datetime t" and n: "0 \<le> n"
  shows "valid_datetime t' \<and> timestamp t' = timestamp t + n
         \<and> microsecond t' = microsecond t \<and> tzinfo t' = tzinfo t"
proof -
  define total where "total = hour t * 3600 + minute t * 60 + second t + n"
  from add obtain d where d: "date_add_days (nat (total div 86400)) (date_of t) = Inr d"
    and t': "t' = t\<lparr>year := year d, month := month d, day := day d,
                    hour := (total mod 86400) div 3600,
                    minute := (total mod 3600) div 60,
                    second := total mod 60\<rparr>"
    by (auto simp: datetime_add_def Let_def total_def split: sum.splits)
  from v n have tot: "0 \<le> total"
    by (simp add: valid_datetime_def total_def)
  then have q: "0 \<le> total div 86400" by (simp add: pos_imp_zdiv_nonneg_iff)
  from v have vd: "valid_date (date_of t)" by (simp add: valid_datetime_def)
  from date_add_days_Inr[OF d vd] q
  have d': "valid_date d" "toordinal d = toordinal t + total div 86400" by simp_all
  have ord: "toordinal t' = toordinal d" by (simp add: t' toordinal_def)
  have vd': "valid_date t' = valid_date d" by (simp add: t' valid_date_def)
  have h: "0 \<le> (total mod 86400) div 3600 \<and> (total mod 86400) div 3600 < 24"
    by (rule div_bounds) simp_all
  have m: "0 \<le> (total mod 3600) div 60 \<and> (total mod 3600) div 60 < 60"
    by (rule div_bounds) simp_all
  have s: "0 \<le> total mod 60 \<and> total mod 60 < 60" by simp
  from v have us: "0 \<le> microsecond t \<and> microsecond t < 1000000"
    by (simp add: valid_datetime_def)
  have valid: "valid_datetime t'"
    unfolding valid_datetime_def vd' using d'(1) h m s us by (simp add: t')
  have "timestamp t' = toordinal d * 86400 + ((total mod 86400) div 3600 * 3600
          + (total mod 3600) div 60 * 60 + total mod 60)"
    unfolding timestamp_def ord by (simp add: t')
  also have "\<dots> = toordinal d * 86400 + total mod 86400" by (simp only: time_split)
  also have "\<dots> = toordinal t * 86400 + (total div 86400 * 86400 + total mod 86400)"
    by (simp add: d'(2) algebra_simps)
  also have "\<dots> = toordinal t * 86400 + total" by simp
  also have "\<dots> = timestamp t + n" by (simp add: timestamp_def total_def)
  finally have "timestamp t' = timestamp t + n" .
  with valid show ?thesis by (simp add: t')
qed

lemma time_of_day_bounds:
  "valid_datetime t \<Longrightarrow>
     0 \<le> hour t * 3600 + minute t * 60 + second t
     \<and> hour t * 3600 + minute t * 60 + second t < 86400"
  by (simp add: valid_datetime_def)

lemma timestamp_bounds:
  assumes "valid_datetime t"
  shows "toordinal t * 86400 \<le> timestamp t" and "timestamp t < (toordinal t + 1) * 86400"
    and "timestamp t < (MAXORDINAL + 1) * 86400"
proof -
  from time_of_day_bounds[OF assms]
  show a: "toordinal t * 86400 \<le> timestamp t" and b: "timestamp t < (toordinal t + 1) * 86400"
    by (simp_all add: timestamp_def)
  from assms have "valid_date t" by (simp add: valid_datetime_def)
  from toordinal_bounds[OF this] have "(toordinal t + 1) * 86400 \<le> (MAXORDINAL + 1) * 86400"
    by simp
  with b show "timestamp t < (MAXORDINAL + 1) * 86400" by linarith
qed

lemma days_before_month_mono:
  assumes "m \<le> m'"
  shows "1 \<le> m \<Longrightarrow> m' \<le> 12 \<Longrightarrow> days_before_month y m \<le> days_before_month y m'"
  using assms
proof (induction m' rule: int_ge_induct)
  case base
  show ?case by simp
next
  case (step i)
  then have "1 \<le> i" "i < 12" by simp_all
  from days_before_next_month[OF this, of y] days_in_month_bounds[of i y] step show ?case
    by simp
qed

lemma toordinal_mono:
  assumes a: "valid_date a" and b: "valid_date b"
    and lt: "(year a, month a, day a) < (year b, month b, day b)"
  shows "toordinal a < toordinal b"
proof -
  from lt consider (y) "year a < year b" | (m) "year a = year b" "month a < month b"
    | (d) "year a = year b" "month a = month b" "day a < day b"
    by (auto simp: less_le)
  then show ?thesis
  proof cases
    case y
    have "toordinal a \<le> days_before_year (year a + 1)"
      using day_of_year_bound(2)[OF a] days_before_next_year[of "year a"]
      by (simp add: toordinal_def split: if_splits)
    also have "\<dots> \<le> days_before_year (year b)" using y by (intro days_before_year_mono) simp
    also have "\<dots> < toordinal b" using day_of_year_bound(1)[OF b] by (simp add: toordinal_def)
    finally show ?thesis .
  next
    case m
    from a b m have r: "1 \<le> month a" "month a < 12" "month a + 1 \<le> month b" "month b \<le> 12"
      "1 \<le> day b" "day a \<le> days_in_month (year a) (month a)"
      by (simp_all add: valid_date_def)
    have "days_before_month (year a) (month a) + day a \<le> days_before_month (year a) (month a + 1)"
      using days_before_next_month[OF r(1,2), of "year a"] r(6) by simp
    also have "\<dots> \<le> days_before_month (year a) (month b)"
      using r by (intro days_before_month_mono) simp_all
    finally show ?thesis using r(5) m(1) by (simp add: toordinal_def)
  next
    case d
    then show ?thesis by (simp add: toordinal_def)
  qed
qed

lemma timestamp_less_imp_datetime_less:
  assumes a: "valid_datetime a" and b: "valid_datetime b" and lt: "timestamp a < timestamp b"
  shows "datetime_less a b"
proof -
  let ?ka = "(year a, month a, day a)" and ?kb = "(year b, month b, day b)"
  from a b have va: "valid_date a" and vb: "valid_date b" by (simp_all add: valid_datetime_def)
  consider "?ka < ?kb" | "?ka = ?kb" | "?kb < ?ka" by (rule linorder_cases)
  then show ?thesis
  proof cases
    case 1
    then show ?thesis by (auto simp: datetime_less_def)
  next
    case 2
    then have "toordinal a = toordinal b" by (simp add: toordinal_def)
    with lt have "hour a * 3600 + minute a * 60 + second a
        < hour b * 3600 + minute b * 60 + second b" by (simp add: timestamp_def)
    moreover from a b have "0 \<le> minute a" "minute a < 60" "0 \<le> second a" "second a < 60"
      "0 \<le> minute b" "minute b < 60" "0 \<le> second b" "second b < 60"
      by (simp_all add: valid_datetime_def)
    ultimately have "hour a < hour b \<or> hour a = hour b \<and> (minute a < minute b
        \<or> minute a = minute b \<and> second a < second b)" by linarith
    with 2 show ?thesis by (auto simp: datetime_less_def)
  next
    case 3
    from toordinal_mono[OF vb va 3] have "toordinal b + 1 \<le> toordinal a" by simp
    then have "(toordinal b + 1) * 86400 \<le> toordinal a * 86400" by simp
    with timestamp_bounds(2)[OF b] timestamp_bounds(1)[OF a] lt show ?thesis by linarith
  qed
qed

section \<open>End-to-end example\<close>

text \<open>
  C5. With the start instant 2020-01-01T00:00:00 the five-field expression \<open>1 1 L * *\<close>
  compiles (its second set is \<open>{0}\<close>, the default sixth field), and the first call of
  \<open>__next__\<close> returns 2020-01-31T01:01:00, which is also the new cursor.
\<close>

theorem C5_last_day_example:
  "CronSim_init ''1 1 L * *''
      \<lparr>year = 2020, month = 1, day = 1, hour = 0, minute = 0, second = 0,
       microsecond = 0, tzinfo = None\<rparr>
    = Inr \<lparr>dt = \<lparr>year = 2020, month = 1, day = 1, hour = 0, minute = 0, second = 0,
                  microsecond = 0, tzinfo = None\<rparr>,
            minutes = {Num 1}, hours = {Num 1}, days = {Num LAST},
            months = RANGES MONTH, weekdays = {}, seconds = {Num 0}\<rparr>
   \<and> CronSim_next
        \<lparr>dt = \<lparr>year = 2020, month = 1, day = 1, hour = 0, minute = 0, second = 0,
                microsecond = 0, tzinfo = None\<rparr>,
          minutes = {Num 1}, hours = {Num 1}, days = {Num LAST},
          months = RANGES MONTH, weekdays = {}, seconds = {Num 0}\<rparr>
    = Some (Inr (\<lparr>year = 2020, month = 1, day = 31, hour = 1, minute = 1, second = 0,
                   microsecond = 0, tzinfo = None\<rparr>,
                 \<lparr>dt = \<lparr>year = 2020, month = 1, day = 31, hour = 1, minute = 1,
                         second = 0, microsecond = 0, tzinfo = None\<rparr>,
                   minutes = {Num 1}, hours = {Num 1}, days = {Num LAST},
                   months = RANGES MONTH, weekdays = {}, seconds = {Num 0}\<rparr>))"
  by code_simp

end
